theory Spec2Isabelle
  imports Main "HOL-Library.Word" "HOL-Library.Multiset"
begin

section \<open>The integer sorter of AvaloniaEdit's sample files\<close>

text \<open>
  The two fixtures, \<^verbatim>\<open>source.c\<close> and \<^verbatim>\<open>source.cpp\<close>, are the same command-line
  program in two languages: parse one argument into a list of integers, bubble-sort it,
  print it. The C fixture works on \<^verbatim>\<open>long\<close> (64 bits), the C++ fixture on \<^verbatim>\<open>int\<close>
  (32 bits). Arrays are lists; a C string is the list of its characters before the
  terminating NUL (which no argument string contains). The loop counters are C
  \<^verbatim>\<open>int\<close>s that run from 0 to at most the length of the argument; they are modelled as
  \<open>nat\<close>, which is exact while that length stays below \<open>2 ^ 31\<close>. The one \<^verbatim>\<open>size_t\<close>
  subtraction that can wrap, \<^verbatim>\<open>num_elems - 1\<close>, wraps in the model too. An access outside
  the array has no defined behaviour in C or C++; the model stops there with a fault.
\<close>

type_synonym long = "64 word"
type_synonym cint = "32 word"

datatype fault = OutOfBounds

subsection \<open>Sorter\<close>

text \<open>
  \<^verbatim>\<open>swap_elements\<close> (source.c:56-63) exchanges two cells through a temporary.
  \<^verbatim>\<open>swap\<close> of source.cpp:8-12 does the same through two pointers into the vector, so
  the C++ loop uses this definition with the indices of the cells pointed to.
\<close>

definition swap_elements :: "'a list \<Rightarrow> nat \<Rightarrow> nat \<Rightarrow> 'a list" where
  "swap_elements arr i j = (let temp = arr ! i in (arr[i := arr ! j])[j := temp])"

text \<open>
  One pass: the inner \<^verbatim>\<open>for\<close> loop of both sorters (source.c:73-78 with counter \<^verbatim>\<open>i\<close>
  and flag \<^verbatim>\<open>had_to_swap\<close>, source.cpp:24-29 with counter \<^verbatim>\<open>j\<close> and flag
  \<^verbatim>\<open>swapped\<close>). It runs the counter up to \<open>bound\<close>, compares the cells \<open>i\<close> and
  \<open>i + 1\<close> as signed integers and swaps them when the left one is greater.
\<close>

function pass :: "'a::len word list \<Rightarrow> nat \<Rightarrow> nat \<Rightarrow> bool \<Rightarrow> fault + 'a word list \<times> bool" where
  "pass arr bound i had_to_swap =
     (if i < bound then
        (if i + 1 < length arr then
           (if arr ! (i + 1) <s arr ! i
            then pass (swap_elements arr i (i + 1)) bound (i + 1) True
            else pass arr bound (i + 1) had_to_swap)
         else Inl OutOfBounds)
      else Inr (arr, had_to_swap))"
  by pat_completeness auto
termination
  by (relation "measure (\<lambda>(arr, bound, i, had). bound - i)") auto

declare pass.simps [simp del]

text \<open>Subtraction on \<^verbatim>\<open>size_t\<close> (64 bits, unsigned): it wraps below zero.\<close>

definition size_t_sub :: "nat \<Rightarrow> nat \<Rightarrow> nat" where
  "size_t_sub a b = (if b \<le> a then a - b else a + 2 ^ 64 - b)"

text \<open>
  \<^verbatim>\<open>bubble_sort\<close> (source.c:65-86): \<^verbatim>\<open>while (true)\<close> around one pass with bound
  \<^verbatim>\<open>num_elems - 1\<close>, left by \<^verbatim>\<open>break\<close> when the pass made no swap. Nothing in the
  loop bounds the number of passes, so the model is a partial function: \<open>None\<close> stands
  for a loop that never ends. The array is sorted in place; the model returns it.
\<close>

partial_function (option) bubble_sort :: "long list \<Rightarrow> nat \<Rightarrow> (fault + long list) option" where
  "bubble_sort arr num_elems =
     (case pass arr (size_t_sub num_elems 1) 0 False of
        Inl f \<Rightarrow> Some (Inl f)
      | Inr (arr', had_to_swap) \<Rightarrow>
          if \<not> had_to_swap then Some (Inr arr') else bubble_sort arr' num_elems)"

declare bubble_sort.simps [code]

text \<open>
  \<^verbatim>\<open>bubbleSort\<close> (source.cpp:17-36): at most \<^verbatim>\<open>n - 1\<close> passes, pass \<open>i\<close> with bound
  \<^verbatim>\<open>n - i - 1\<close> (\<^verbatim>\<open>int\<close> arithmetic), left early when a pass made no swap.
\<close>

function bubbleSort_loop :: "cint list \<Rightarrow> int \<Rightarrow> int \<Rightarrow> fault + cint list" where
  "bubbleSort_loop v n i =
     (if i < n - 1 then
        (case pass v (nat (n - i - 1)) 0 False of
           Inl f \<Rightarrow> Inl f
         | Inr (v', swapped) \<Rightarrow>
             if swapped = False then Inr v' else bubbleSort_loop v' n (i + 1))
      else Inr v)"
  by pat_completeness auto
termination
  by (relation "measure (\<lambda>(v, n, i). nat (n - 1 - i))") auto

declare bubbleSort_loop.simps [simp del]

definition bubbleSort :: "cint list \<Rightarrow> int \<Rightarrow> fault + cint list" where
  "bubbleSort v n = bubbleSort_loop v n 0"

text \<open>
  The same loop (source.cpp:21-35) with a record of its passes: besides the vector it
  returns, for every pass made, the value \<^verbatim>\<open>swapped\<close> had when the pass ended.
\<close>

function bubbleSort_run :: "cint list \<Rightarrow> int \<Rightarrow> int \<Rightarrow> fault + cint list \<times> bool list" where
  "bubbleSort_run v n i =
     (if i < n - 1 then
        (case pass v (nat (n - i - 1)) 0 False of
           Inl f \<Rightarrow> Inl f
         | Inr (v', swapped) \<Rightarrow>
             if swapped = False then Inr (v', [False])
             else (case bubbleSort_run v' n (i + 1) of
                     Inl f \<Rightarrow> Inl f
                   | Inr (v'', flags) \<Rightarrow> Inr (v'', True # flags)))
      else Inr (v, []))"
  by pat_completeness auto
termination
  by (relation "measure (\<lambda>(v, n, i). nat (n - 1 - i))") auto

declare bubbleSort_run.simps [simp del]

subsection \<open>The C library functions the parser calls\<close>

text \<open>
  \<^verbatim>\<open>strtok(s, delims)\<close> skips leading delimiters; at the end of the string it returns
  NULL; otherwise the token runs up to the next delimiter, which it overwrites with NUL,
  and the library remembers the position after it for the call \<^verbatim>\<open>strtok(NULL, delims)\<close>.
  The model passes that remembered rest of the buffer explicitly: the result is the token
  and the rest.
\<close>

definition strtok :: "string \<Rightarrow> string \<Rightarrow> (string \<times> string) option" where
  "strtok s delims =
     (let s' = dropWhile (\<lambda>c. c \<in> set delims) s
      in if s' = [] then None
         else Some (takeWhile (\<lambda>c. c \<notin> set delims) s',
                    drop 1 (dropWhile (\<lambda>c. c \<notin> set delims) s')))"

definition isspace :: "char \<Rightarrow> bool" where
  "isspace c = (c \<in> set [CHR '' '', CHR 0x09, CHR 0x0A, CHR 0x0B, CHR 0x0C, CHR 0x0D])"

definition isdigit :: "char \<Rightarrow> bool" where
  "isdigit c = (c \<in> set ''0123456789'')"

definition digits_value :: "string \<Rightarrow> nat" where
  "digits_value ds = foldl (\<lambda>acc c. 10 * acc + (of_char c - 48)) 0 ds"

text \<open>
  The subject sequence of \<^verbatim>\<open>strtol(s, NULL, 10)\<close> and \<^verbatim>\<open>atoi(s)\<close>: white space,
  an optional sign, then the longest run of decimal digits; what follows is ignored.
  \<open>None\<close> when there is no digit (no conversion), else the number read, unbounded.
\<close>

definition subject_value :: "string \<Rightarrow> int option" where
  "subject_value s =
     (let s1 = dropWhile isspace s;
          neg = (s1 \<noteq> [] \<and> hd s1 = CHR ''-'');
          s2 = (if s1 \<noteq> [] \<and> (hd s1 = CHR ''-'' \<or> hd s1 = CHR ''+'') then tl s1 else s1);
          ds = takeWhile isdigit s2
      in if ds = [] then None
         else Some (if neg then - int (digits_value ds) else int (digits_value ds)))"

definition LONG_MAX :: int where "LONG_MAX = 2 ^ 63 - 1"
definition LONG_MIN :: int where "LONG_MIN = - (2 ^ 63)"
definition ERANGE :: nat where "ERANGE = 34"
definition EINVAL :: nat where "EINVAL = 22"

text \<open>
  What \<^verbatim>\<open>strtol\<close> leaves in \<^verbatim>\<open>errno\<close> when it converts nothing is up to the C
  library: ISO C (and glibc) leave \<^verbatim>\<open>errno\<close> alone, POSIX allows \<^verbatim>\<open>EINVAL\<close> (the
  BSD libraries store it). The library is a parameter of the model.
\<close>

datatype libc = Errno_unchanged | Errno_EINVAL

definition noconv_errno :: "libc \<Rightarrow> nat" where
  "noconv_errno lib = (case lib of Errno_unchanged \<Rightarrow> 0 | Errno_EINVAL \<Rightarrow> EINVAL)"

text \<open>
  \<^verbatim>\<open>strtol(token, NULL, 10)\<close> called with \<^verbatim>\<open>errno = 0\<close>: the value returned and
  \<^verbatim>\<open>errno\<close> afterwards. A number outside \<^verbatim>\<open>long\<close> is clamped and reported with
  \<^verbatim>\<open>ERANGE\<close>.
\<close>

definition strtol :: "libc \<Rightarrow> string \<Rightarrow> long \<times> nat" where
  "strtol lib s =
     (case subject_value s of
        None \<Rightarrow> (0, noconv_errno lib)
      | Some v \<Rightarrow>
          if LONG_MAX < v then (word_of_int LONG_MAX, ERANGE)
          else if v < LONG_MIN then (word_of_int LONG_MIN, ERANGE)
          else (word_of_int v, 0))"

text \<open>
  \<^verbatim>\<open>atoi(s)\<close> is \<^verbatim>\<open>(int) strtol(s, NULL, 10)\<close>: the clamped \<^verbatim>\<open>long\<close> cut to 32
  bits. (ISO C leaves a value outside \<^verbatim>\<open>int\<close> undefined; this is what glibc does.)
\<close>

definition atoi :: "string \<Rightarrow> cint" where
  "atoi s = ucast (fst (strtol Errno_unchanged s))"

text \<open>
  \<^verbatim>\<open>malloc\<close> hands out a block whose cells hold whatever was there before: \<open>junk\<close>
  gives the content of cell \<open>k\<close> of the fresh block. (Allocation is assumed to succeed.)
\<close>

definition malloc :: "(nat \<Rightarrow> long) \<Rightarrow> nat \<Rightarrow> long list" where
  "malloc junk n = map junk [0..<n]"

text \<open>\<^verbatim>\<open>printf("%ld", x)\<close> and \<^verbatim>\<open>std::cout << x\<close>: the signed value in decimal.\<close>

fun dec :: "nat \<Rightarrow> string" where
  "dec n = (if n < 10 then [''0123456789'' ! n] else dec (n div 10) @ [''0123456789'' ! (n mod 10)])"

declare dec.simps [simp del]

definition show_signed :: "'a::len word \<Rightarrow> string" where
  "show_signed x = (if sint x < 0 then CHR ''-'' # dec (nat (- sint x)) else dec (nat (sint x)))"

subsection \<open>The C fixture: parser, printer, driver\<close>

text \<open>The first loop of \<^verbatim>\<open>parse_list\<close> (source.c:17-21): count the commas.\<close>

fun count_commas :: "string \<Rightarrow> nat \<Rightarrow> nat" where
  "count_commas [] num_elements = num_elements"
| "count_commas (c # cs) num_elements =
     count_commas cs (if c = CHR '','' then num_elements + 1 else num_elements)"

text \<open>
  The \<^verbatim>\<open>while (token != NULL)\<close> loop (source.c:38-49). \<open>token\<close> is the result of the
  last \<^verbatim>\<open>strtok\<close> call: the token and the rest of the buffer. \<open>Inr None\<close> is the early
  \<^verbatim>\<open>return 0\<close> with \<^verbatim>\<open>*arr = NULL\<close>; \<open>Inr (Some arr)\<close> the array when the tokens
  are used up. A store past the end of the block is a fault.
\<close>

function parse_loop ::
  "libc \<Rightarrow> (string \<times> string) option \<Rightarrow> long list \<Rightarrow> nat \<Rightarrow> fault + long list option" where
  "parse_loop lib None arr curr_index = Inr (Some arr)"
| "parse_loop lib (Some (token, rest)) arr curr_index =
     (let (temp_num, errno) = strtol lib token
      in if errno \<noteq> 0 then Inr None
         else if curr_index < length arr
         then parse_loop lib (strtok rest '','') (arr[curr_index := temp_num]) (curr_index + 1)
         else Inl OutOfBounds)"
  by pat_completeness auto
termination
proof (relation "measure (\<lambda>(lib, token, arr, curr_index).
    case token of None \<Rightarrow> 0 | Some (t, rest) \<Rightarrow> Suc (length rest))")
  show "wf (measure (\<lambda>(lib, token, arr, curr_index).
    case token of None \<Rightarrow> 0 | Some (t, rest) \<Rightarrow> Suc (length rest)))"
    by simp
next
  fix lib :: libc and token rest :: string and arr :: "long list" and curr_index :: nat
    and x :: "long \<times> nat" and temp_num :: long and errno :: nat
  have "length (drop 1 (dropWhile (\<lambda>c. c \<noteq> CHR '','') (dropWhile (\<lambda>c. c = CHR '','') rest)))
          < length rest"
    if ne: "dropWhile (\<lambda>c. c = CHR '','') rest \<noteq> []"
  proof -
    let ?s = "dropWhile (\<lambda>c. c = CHR '','') rest"
    from ne obtain x xs where s: "?s = x # xs" by (cases ?s) auto
    from ne hd_dropWhile [of "\<lambda>c. c = CHR '',''" rest] s have "x \<noteq> CHR '',''" by simp
    with s have "dropWhile (\<lambda>c. c \<noteq> CHR '','') ?s = dropWhile (\<lambda>c. c \<noteq> CHR '','') xs"
      by simp
    moreover have "length (dropWhile (\<lambda>c. c \<noteq> CHR '','') xs) \<le> length xs"
      by (rule length_dropWhile_le)
    moreover have "length ?s \<le> length rest" by (rule length_dropWhile_le)
    ultimately show ?thesis using s by simp
  qed
  then show "((lib, strtok rest '','', arr[curr_index := temp_num], curr_index + 1),
              (lib, Some (token, rest), arr, curr_index))
             \<in> measure (\<lambda>(lib, token, arr, curr_index).
                  case token of None \<Rightarrow> 0 | Some (t, rest) \<Rightarrow> Suc (length rest))"
    by (simp add: strtok_def Let_def)
qed

declare parse_loop.simps [simp del]

text \<open>
  The tokens of a string: what the successive \<^verbatim>\<open>strtok\<close> calls of that loop return,
  that is, the non-empty runs of characters between commas.
\<close>

function tokens :: "string \<Rightarrow> string list" where
  "tokens s = (case strtok s '','' of None \<Rightarrow> [] | Some (token, rest) \<Rightarrow> token # tokens rest)"
  by pat_completeness auto
termination
proof (relation "measure length")
  show "wf (measure (length :: string \<Rightarrow> nat))" by simp
next
  fix s :: string and x2 :: "string \<times> string" and token rest :: string
  assume tok: "strtok s '','' = Some x2" and x2: "(token, rest) = x2"
  let ?s = "dropWhile (\<lambda>c. c = CHR '','') s"
  from tok x2 have ne: "?s \<noteq> []"
    and rest: "rest = drop 1 (dropWhile (\<lambda>c. c \<noteq> CHR '','') ?s)"
    by (auto simp: strtok_def Let_def split: if_splits)
  from ne obtain x xs where s: "?s = x # xs" by (cases ?s) auto
  from ne hd_dropWhile [of "\<lambda>c. c = CHR '',''" s] s have "x \<noteq> CHR '',''" by simp
  with s have "dropWhile (\<lambda>c. c \<noteq> CHR '','') ?s = dropWhile (\<lambda>c. c \<noteq> CHR '','') xs"
    by simp
  moreover have "length (dropWhile (\<lambda>c. c \<noteq> CHR '','') xs) \<le> length xs"
    by (rule length_dropWhile_le)
  moreover have "length ?s \<le> length s" by (rule length_dropWhile_le)
  ultimately have "length rest < length s" using s rest by simp
  then show "(rest, s) \<in> measure length" by simp
qed

declare tokens.simps [simp del]

text \<open>The tokens the loop still has to read, given the result of the last \<^verbatim>\<open>strtok\<close> call.\<close>

fun pending :: "(string \<times> string) option \<Rightarrow> string list" where
  "pending None = []"
| "pending (Some (token, rest)) = token # tokens rest"

text \<open>
  \<^verbatim>\<open>parse_list\<close> (source.c:7-54): the array left in \<^verbatim>\<open>*arr\<close> (\<open>None\<close> for NULL) and
  the count returned.
\<close>

definition parse_list :: "libc \<Rightarrow> (nat \<Rightarrow> long) \<Rightarrow> string \<Rightarrow> fault + long list option \<times> nat" where
  "parse_list lib junk orig_list =
     (let num_elements = count_commas orig_list 0
      in if num_elements = 0 then Inr (None, 0)
         else let num_elements = num_elements + 1;
                  arr = malloc junk num_elements
              in case parse_loop lib (strtok orig_list '','') arr 0 of
                   Inl f \<Rightarrow> Inl f
                 | Inr None \<Rightarrow> Inr (None, 0)
                 | Inr (Some arr) \<Rightarrow> Inr (Some arr, num_elements))"

text \<open>
  \<^verbatim>\<open>print_array\<close> (source.c:88-97): all cells but the last followed by a comma and a
  space, the last by a newline. The result is what goes to standard output.
\<close>

function print_loop :: "long list \<Rightarrow> nat \<Rightarrow> nat \<Rightarrow> string \<Rightarrow> fault + string" where
  "print_loop arr bound i out =
     (if i < bound then
        (if i < length arr then print_loop arr bound (i + 1) (out @ show_signed (arr ! i) @ '', '')
         else Inl OutOfBounds)
      else Inr out)"
  by pat_completeness auto
termination
  by (relation "measure (\<lambda>(arr, bound, i, out). bound - i)") auto

declare print_loop.simps [simp del]

definition print_array :: "long list \<Rightarrow> nat \<Rightarrow> fault + string" where
  "print_array arr num_elems =
     (case print_loop arr (size_t_sub num_elems 1) 0 [] of
        Inl f \<Rightarrow> Inl f
      | Inr out \<Rightarrow>
          if size_t_sub num_elems 1 < length arr
          then Inr (out @ show_signed (arr ! size_t_sub num_elems 1) @ [CHR 0x0A])
          else Inl OutOfBounds)"

text \<open>What a run of either program leaves behind: exit code and the two output streams.\<close>

record run =
  exit_code :: int
  stdout :: string
  stderr :: string

definition usage_text :: string where
  "usage_text =
     ''Usage: please provide a list of at least two integers to sort in the format \"1, 2, 3, 4, 5\"''"

text \<open>\<^verbatim>\<open>usage\<close> (source.c:99-102) writes the message and a newline to \<^verbatim>\<open>stderr\<close>.\<close>

definition usage :: "run \<Rightarrow> run" where
  "usage r = r\<lparr>stderr := stderr r @ usage_text @ [CHR 0x0A]\<rparr>"

text \<open>
  \<^verbatim>\<open>main\<close> of source.c:104-124. \<open>argv\<close> holds the program name and the arguments,
  \<^verbatim>\<open>argc\<close> is its length. The function ends without a \<^verbatim>\<open>return\<close> on the sorting path,
  which in C99 returns 0 from \<^verbatim>\<open>main\<close>. \<open>None\<close> is a run whose sorting loop never
  ends. (A NULL array with a count other than 0 would be read through; \<^verbatim>\<open>parse_list\<close>
  never returns one.)
\<close>

definition main_c :: "libc \<Rightarrow> (nat \<Rightarrow> long) \<Rightarrow> string list \<Rightarrow> (fault + run) option" where
  "main_c lib junk argv =
     (let start = \<lparr>exit_code = 0, stdout = [], stderr = []\<rparr>
      in if length argv < 2 then Some (Inr ((usage start)\<lparr>exit_code := 1\<rparr>))
         else case parse_list lib junk (argv ! 1) of
                Inl f \<Rightarrow> Some (Inl f)
              | Inr (arr, num_elements) \<Rightarrow>
                  if num_elements = 0 then Some (Inr ((usage start)\<lparr>exit_code := 1\<rparr>))
                  else case arr of
                         None \<Rightarrow> Some (Inl OutOfBounds)
                       | Some arr \<Rightarrow>
                           (case bubble_sort arr num_elements of
                              None \<Rightarrow> None
                            | Some (Inl f) \<Rightarrow> Some (Inl f)
                            | Some (Inr arr) \<Rightarrow>
                                (case print_array arr num_elements of
                                   Inl f \<Rightarrow> Some (Inl f)
                                 | Inr out \<Rightarrow> Some (Inr (start\<lparr>stdout := out\<rparr>)))))"

subsection \<open>The C++ fixture: format check, number collection, printer, driver\<close>

text \<open>
  Reading \<^verbatim>\<open>characters[i]\<close>: the character at \<open>i\<close>, or the terminating NUL at the
  length of the string (the loops below read no further).
\<close>

definition char_at :: "string \<Rightarrow> nat \<Rightarrow> char" where
  "char_at characters i = (if i < length characters then characters ! i else CHR 0x00)"

text \<open>
  The format check (source.cpp:64-72), started with \<^verbatim>\<open>index = 1\<close> and
  \<^verbatim>\<open>commaSeparated = false\<close>: the result is the final \<^verbatim>\<open>commaSeparated\<close>.
\<close>

function format_loop :: "string \<Rightarrow> nat \<Rightarrow> bool \<Rightarrow> bool" where
  "format_loop characters index commaSeparated =
     (if index < length characters then
        (if char_at characters index = CHR '','' \<and> char_at characters (index + 1) = CHR '' ''
         then format_loop characters (index + 3) True
         else False)
      else commaSeparated)"
  by pat_completeness auto
termination
  by (relation "measure (\<lambda>(characters, index, c). length characters - index)") auto

declare format_loop.simps [simp del]

text \<open>
  The collecting loop (source.cpp:75-80): at every character that is neither a comma nor
  a space, \<^verbatim>\<open>atoi\<close> of the string from there on is appended to \<^verbatim>\<open>numbers\<close>.
\<close>

function collect_loop :: "string \<Rightarrow> nat \<Rightarrow> cint list \<Rightarrow> cint list" where
  "collect_loop characters i numbers =
     (if i < length characters then
        (if characters ! i \<noteq> CHR '','' \<and> characters ! i \<noteq> CHR '' ''
         then collect_loop characters (i + 1) (numbers @ [atoi (drop i characters)])
         else collect_loop characters (i + 1) numbers)
      else numbers)"
  by pat_completeness auto
termination
  by (relation "measure (\<lambda>(characters, i, numbers). length characters - i)") auto

declare collect_loop.simps [simp del]

text \<open>\<^verbatim>\<open>print\<close> (source.cpp:41-48): what it writes to \<^verbatim>\<open>std::cout\<close>.\<close>

function print_cpp_loop :: "cint list \<Rightarrow> int \<Rightarrow> int \<Rightarrow> string \<Rightarrow> fault + string" where
  "print_cpp_loop v size' i out =
     (if i < size' then
        (if 0 \<le> i \<and> nat i < length v then
           (if i = size' - 1
            then print_cpp_loop v size' (i + 1) (out @ show_signed (v ! nat i) @ [CHR 0x0A])
            else print_cpp_loop v size' (i + 1) (out @ show_signed (v ! nat i) @ '', ''))
         else Inl OutOfBounds)
      else Inr out)"
  by pat_completeness auto
termination
  by (relation "measure (\<lambda>(v, size', i, out). nat (size' - i))") auto

declare print_cpp_loop.simps [simp del]

definition print_cpp :: "cint list \<Rightarrow> int \<Rightarrow> fault + string" where
  "print_cpp v size' = print_cpp_loop v size' 0 []"

text \<open>
  \<^verbatim>\<open>main\<close> of source.cpp:53-94, in two parts. First the vector \<^verbatim>\<open>numbers\<close> as it
  stands at line 84: filled only when there is exactly one argument and it passes the
  format check.
\<close>

definition numbers :: "string list \<Rightarrow> cint list" where
  "numbers argv =
     (if length argv = 2 then
        (let characters = argv ! 1
         in if format_loop characters 1 False = True
            then collect_loop characters 0 []
            else [])
      else [])"

text \<open>
  Then lines 84-93. The usage message goes to \<^verbatim>\<open>std::cout\<close>, and every path ends in
  \<^verbatim>\<open>return 0\<close>.
\<close>

definition main_cpp :: "string list \<Rightarrow> fault + run" where
  "main_cpp argv =
     (let start = \<lparr>exit_code = 0, stdout = [], stderr = []\<rparr>;
          size' = int (length (numbers argv))
      in if size' < 2 then Inr (start\<lparr>stdout := usage_text @ [CHR 0x0A]\<rparr>)
         else case bubbleSort (numbers argv) size' of
                Inl f \<Rightarrow> Inl f
              | Inr sorted_numbers \<Rightarrow>
                  (case print_cpp sorted_numbers size' of
                     Inl f \<Rightarrow> Inl f
                   | Inr out \<Rightarrow> Inr (start\<lparr>stdout := out\<rparr>)))"

subsection \<open>The printed line\<close>

text \<open>
  The line that both printers write for a sequence of at least one element (lemmas
  \<open>print_array_result\<close> and \<open>print_cpp_result\<close> below): every element but the last
  followed by a comma and a space, the last by a newline.
\<close>

definition printed :: "'a::len word list \<Rightarrow> string" where
  "printed xs =
     concat (map (\<lambda>x. show_signed x @ '', '') (butlast xs)) @ show_signed (last xs) @ [CHR 0x0A]"

subsection \<open>A measure for the sorting loop\<close>

text \<open>
  The number of inversions of a sequence: the pairs of positions whose values stand in
  the wrong order. It is the quantity that every swap of the sorter lowers.
\<close>

fun inversions :: "int list \<Rightarrow> nat" where
  "inversions [] = 0"
| "inversions (x # xs) = length (filter (\<lambda>y. y < x) xs) + inversions xs"


section \<open>Properties of the sorter\<close>

lemma swap_elements_length [simp]: "length (swap_elements arr i j) = length arr"
  by (simp add: swap_elements_def Let_def)

lemma swap_elements_mset [simp]:
  "i < length arr \<Longrightarrow> j < length arr \<Longrightarrow> mset (swap_elements arr i j) = mset arr"
  by (simp add: swap_elements_def Let_def mset_swap)

lemma swap_elements_Cons_Suc:
  "swap_elements (x # xs) (Suc i) (Suc j) = x # swap_elements xs i j"
  by (simp add: swap_elements_def Let_def)

lemma swap_elements_adjacent_0:
  "swap_elements (a # b # xs) 0 (Suc 0) = b # a # xs"
  by (simp add: swap_elements_def Let_def)

lemma swap_elements_map:
  "i < length arr \<Longrightarrow> j < length arr \<Longrightarrow>
   map f (swap_elements arr i j) = swap_elements (map f arr) i j"
  by (simp add: swap_elements_def Let_def map_update)

lemma length_filter_mset_eq:
  "mset xs = mset ys \<Longrightarrow> length (filter P xs) = length (filter P ys)"
  by (metis mset_filter size_mset)

lemma inversions_swap:
  "Suc i < length xs \<Longrightarrow> xs ! Suc i < xs ! i \<Longrightarrow>
   Suc (inversions (swap_elements xs i (Suc i))) = inversions xs"
proof (induction xs arbitrary: i)
  case Nil
  then show ?case by simp
next
  case (Cons x xs)
  show ?case
  proof (cases i)
    case 0
    with Cons.prems obtain b ys where xs: "xs = b # ys" by (cases xs) auto
    with 0 Cons.prems have "b < x" by simp
    then show ?thesis using 0 xs by (simp add: swap_elements_adjacent_0)
  next
    case (Suc i')
    with Cons.prems have a: "Suc i' < length xs" "xs ! Suc i' < xs ! i'" by simp_all
    have "mset (swap_elements xs i' (Suc i')) = mset xs" using a by simp
    then have "length (filter (\<lambda>y. y < x) (swap_elements xs i' (Suc i')))
                 = length (filter (\<lambda>y. y < x) xs)"
      by (rule length_filter_mset_eq)
    with Cons.IH [OF a] show ?thesis using Suc by (simp add: swap_elements_Cons_Suc)
  qed
qed

lemma pass_returns:
  "bound < length arr \<Longrightarrow>
   \<exists>arr' h. pass arr bound i had = Inr (arr', h) \<and> length arr' = length arr \<and> mset arr' = mset arr"
proof (induction arr bound i had rule: pass.induct)
  case (1 arr bound i had)
  show ?case
  proof (cases "i < bound")
    case False
    then show ?thesis by (simp add: pass.simps)
  next
    case True
    with "1.prems" have in_range: "i + 1 < length arr" by simp
    show ?thesis
    proof (cases "arr ! (i + 1) <s arr ! i")
      case gt: True
      from "1.IH"(1) [OF True in_range gt] "1.prems"
      obtain arr' h where "pass (swap_elements arr i (i + 1)) bound (i + 1) True = Inr (arr', h)"
        and "length arr' = length arr" and "mset arr' = mset arr"
        using in_range by auto
      with True in_range gt show ?thesis by (subst pass.simps) simp
    next
      case le: False
      from "1.IH"(2) [OF True in_range le] "1.prems"
      obtain arr' h where "pass arr bound (i + 1) had = Inr (arr', h)"
        and "length arr' = length arr" and "mset arr' = mset arr"
        by auto
      with True in_range le show ?thesis by (subst pass.simps) simp
    qed
  qed
qed


lemma pass_no_swap:
  "pass arr bound i had = Inr (arr', False) \<Longrightarrow>
   arr' = arr \<and> \<not> had \<and> (\<forall>k. i \<le> k \<and> k < bound \<longrightarrow> \<not> arr ! (k + 1) <s arr ! k)"
proof (induction arr bound i had rule: pass.induct)
  case (1 arr bound i had)
  show ?case
  proof (cases "i < bound")
    case False
    with "1.prems" show ?thesis by (auto simp: pass.simps)
  next
    case True
    with "1.prems" have in_range: "i + 1 < length arr"
      by (subst (asm) pass.simps) (simp split: if_splits)
    show ?thesis
    proof (cases "arr ! (i + 1) <s arr ! i")
      case gt: True
      with True in_range "1.prems"
      have "pass (swap_elements arr i (i + 1)) bound (i + 1) True = Inr (arr', False)"
        by (subst (asm) pass.simps) simp
      from "1.IH"(1) [OF True in_range gt this] show ?thesis by simp
    next
      case le: False
      with True in_range "1.prems"
      have "pass arr bound (i + 1) had = Inr (arr', False)"
        by (subst (asm) pass.simps) simp
      from "1.IH"(2) [OF True in_range le this]
      have *: "arr' = arr" "\<not> had" "\<forall>k. i + 1 \<le> k \<and> k < bound \<longrightarrow> \<not> arr ! (k + 1) <s arr ! k"
        by simp_all
      have "\<not> arr ! (k + 1) <s arr ! k" if "i \<le> k" "k < bound" for k
        using that * le by (cases "k = i") auto
      with * show ?thesis by blast
    qed
  qed
qed

lemma pass_ordered:
  "bound < length arr \<Longrightarrow> \<forall>k. i \<le> k \<and> k < bound \<longrightarrow> \<not> arr ! (k + 1) <s arr ! k \<Longrightarrow>
   pass arr bound i had = Inr (arr, had)"
proof (induction arr bound i had rule: pass.induct)
  case (1 arr bound i had)
  show ?case
  proof (cases "i < bound")
    case False
    then show ?thesis by (simp add: pass.simps)
  next
    case True
    with "1.prems" have in_range: "i + 1 < length arr" and le: "\<not> arr ! (i + 1) <s arr ! i"
      by simp_all
    from "1.IH"(2) [OF True in_range le "1.prems"(1)] "1.prems"(2)
    have "pass arr bound (i + 1) had = Inr (arr, had)" by simp
    with True in_range le show ?thesis by (subst pass.simps) simp
  qed
qed

lemma pass_inversions:
  "pass arr bound i had = Inr (arr', had') \<Longrightarrow>
   inversions (map sint arr') \<le> inversions (map sint arr) \<and>
   (had' \<and> \<not> had \<longrightarrow> inversions (map sint arr') < inversions (map sint arr))"
proof (induction arr bound i had rule: pass.induct)
  case (1 arr bound i had)
  show ?case
  proof (cases "i < bound")
    case False
    with "1.prems" show ?thesis by (simp add: pass.simps)
  next
    case True
    with "1.prems" have in_range: "i + 1 < length arr"
      by (subst (asm) pass.simps) (simp split: if_splits)
    show ?thesis
    proof (cases "arr ! (i + 1) <s arr ! i")
      case gt: True
      with True in_range "1.prems"
      have "pass (swap_elements arr i (i + 1)) bound (i + 1) True = Inr (arr', had')"
        by (subst (asm) pass.simps) simp
      from "1.IH"(1) [OF True in_range gt this]
      have "inversions (map sint arr') \<le> inversions (map sint (swap_elements arr i (i + 1)))"
        by simp
      moreover have "Suc (inversions (swap_elements (map sint arr) i (Suc i))) = inversions (map sint arr)"
        using in_range gt by (intro inversions_swap) (simp_all add: word_sless_alt)
      ultimately show ?thesis using in_range by (simp add: swap_elements_map)
    next
      case le: False
      with True in_range "1.prems"
      have "pass arr bound (i + 1) had = Inr (arr', had')"
        by (subst (asm) pass.simps) simp
      from "1.IH"(2) [OF True in_range le this] show ?thesis .
    qed
  qed
qed


lemma adjacent_sorted:
  "\<forall>k. k < length arr - 1 \<longrightarrow> \<not> arr ! (k + 1) <s arr ! k \<Longrightarrow> sorted (map sint arr)"
  unfolding sorted_iff_nth_Suc
proof (intro allI impI)
  fix i
  assume a: "\<forall>k. k < length arr - 1 \<longrightarrow> \<not> arr ! (k + 1) <s arr ! k"
    and b: "Suc i < length (map sint arr)"
  then have "\<not> arr ! (i + 1) <s arr ! i" by simp
  with b show "map sint arr ! i \<le> map sint arr ! Suc i"
    by (simp add: word_sless_alt)
qed

lemma sorted_adjacent:
  "sorted (map sint arr) \<Longrightarrow> k < length arr - 1 \<Longrightarrow> \<not> arr ! (k + 1) <s arr ! k"
proof -
  assume s: "sorted (map sint arr)" and k: "k < length arr - 1"
  from s k have "map sint arr ! k \<le> map sint arr ! Suc k"
    by (intro sorted_nth_mono) simp_all
  with k show ?thesis by (simp add: word_sless_alt)
qed

lemma size_t_sub_1: "arr \<noteq> [] \<Longrightarrow> size_t_sub (length arr) 1 = length arr - 1"
  by (cases arr) (simp_all add: size_t_sub_def)

lemma bubble_sort_total:
  "arr \<noteq> [] \<Longrightarrow>
   \<exists>ys. bubble_sort arr (length arr) = Some (Inr ys) \<and> mset ys = mset arr \<and>
        sorted (map sint ys) \<and> pass ys (size_t_sub (length arr) 1) 0 False = Inr (ys, False)"
proof (induction arr rule: measure_induct_rule [where f = "\<lambda>a. inversions (map sint a)"])
  case (less arr)
  let ?b = "size_t_sub (length arr) 1"
  from less.prems have b: "?b = length arr - 1" "?b < length arr"
    using size_t_sub_1 [of arr] by auto
  from pass_returns [OF b(2), of 0 False]
  obtain arr' h where p: "pass arr ?b 0 False = Inr (arr', h)"
    and len: "length arr' = length arr" and ms: "mset arr' = mset arr"
    by blast
  show ?case
  proof (cases h)
    case False
    with p have bs: "bubble_sort arr (length arr) = Some (Inr arr')"
      by (subst bubble_sort.simps) simp
    from p False have p': "pass arr ?b 0 False = Inr (arr', False)" by simp
    from pass_no_swap [OF p']
    have eq: "arr' = arr" and adj: "\<forall>k. 0 \<le> k \<and> k < ?b \<longrightarrow> \<not> arr ! (k + 1) <s arr ! k"
      by simp_all
    from adj b have "sorted (map sint arr)" by (intro adjacent_sorted) simp
    with bs eq p False show ?thesis by simp
  next
    case True
    with p pass_inversions [OF p]
    have "inversions (map sint arr') < inversions (map sint arr)" by simp
    moreover from len less.prems have "arr' \<noteq> []" by auto
    ultimately obtain ys where "bubble_sort arr' (length arr') = Some (Inr ys)"
      and "mset ys = mset arr'" and "sorted (map sint ys)"
      and "pass ys (size_t_sub (length arr') 1) 0 False = Inr (ys, False)"
      using less.IH by blast
    moreover from p True have "bubble_sort arr (length arr) = bubble_sort arr' (length arr)"
      by (subst bubble_sort.simps) simp
    ultimately show ?thesis using len ms by simp
  qed
qed

lemma bubble_sort_sorted_input:
  "arr \<noteq> [] \<Longrightarrow> sorted (map sint arr) \<Longrightarrow> bubble_sort arr (length arr) = Some (Inr arr)"
proof -
  assume ne: "arr \<noteq> []" and s: "sorted (map sint arr)"
  then have b: "size_t_sub (length arr) 1 = length arr - 1" "size_t_sub (length arr) 1 < length arr"
    using size_t_sub_1 [of arr] by auto
  have "pass arr (size_t_sub (length arr) 1) 0 False = Inr (arr, False)"
    using b sorted_adjacent [OF s] by (intro pass_ordered) simp_all
  then show ?thesis by (subst bubble_sort.simps) simp
qed


lemma swap_elements_drop:
  "j < m \<Longrightarrow> i < m \<Longrightarrow> drop m (swap_elements arr i j) = drop m arr"
  by (simp add: swap_elements_def Let_def)

lemma swap_elements_nth:
  "i < length arr \<Longrightarrow> j < length arr \<Longrightarrow>
   swap_elements arr i j ! k = (if k = j then arr ! i else if k = i then arr ! j else arr ! k)"
  by (simp add: swap_elements_def Let_def nth_list_update)

lemma pass_frame:
  "pass arr bound i had = Inr (arr', had') \<Longrightarrow> drop (Suc bound) arr' = drop (Suc bound) arr"
proof (induction arr bound i had rule: pass.induct)
  case (1 arr bound i had)
  show ?case
  proof (cases "i < bound")
    case False
    with "1.prems" show ?thesis by (simp add: pass.simps)
  next
    case True
    with "1.prems" have in_range: "i + 1 < length arr"
      by (subst (asm) pass.simps) (simp split: if_splits)
    show ?thesis
    proof (cases "arr ! (i + 1) <s arr ! i")
      case gt: True
      with True in_range "1.prems"
      have "pass (swap_elements arr i (i + 1)) bound (i + 1) True = Inr (arr', had')"
        by (subst (asm) pass.simps) simp
      from "1.IH"(1) [OF True in_range gt this] True
      show ?thesis by (simp add: swap_elements_drop)
    next
      case le: False
      with True in_range "1.prems"
      have "pass arr bound (i + 1) had = Inr (arr', had')"
        by (subst (asm) pass.simps) simp
      from "1.IH"(2) [OF True in_range le this] show ?thesis .
    qed
  qed
qed

lemma pass_max_last:
  "pass arr bound i had = Inr (arr', had') \<Longrightarrow> i \<le> bound \<Longrightarrow>
   \<forall>k<i. sint (arr ! k) \<le> sint (arr ! i) \<Longrightarrow>
   \<forall>k<bound. sint (arr' ! k) \<le> sint (arr' ! bound)"
proof (induction arr bound i had rule: pass.induct)
  case (1 arr bound i had)
  show ?case
  proof (cases "i < bound")
    case False
    with "1.prems" have "arr' = arr" "i = bound" by (simp_all add: pass.simps)
    with "1.prems"(3) show ?thesis by simp
  next
    case True
    with "1.prems" have in_range: "i + 1 < length arr"
      by (subst (asm) pass.simps) (simp split: if_splits)
    show ?thesis
    proof (cases "arr ! (i + 1) <s arr ! i")
      case gt: True
      with True in_range "1.prems"
      have p: "pass (swap_elements arr i (i + 1)) bound (i + 1) True = Inr (arr', had')"
        by (subst (asm) pass.simps) simp
      have "\<forall>k<i + 1. sint (swap_elements arr i (i + 1) ! k)
              \<le> sint (swap_elements arr i (i + 1) ! (i + 1))"
      proof (intro allI impI)
        fix k assume "k < i + 1"
        then consider "k < i" | "k = i" by linarith
        then show "sint (swap_elements arr i (i + 1) ! k)
              \<le> sint (swap_elements arr i (i + 1) ! (i + 1))"
        proof cases
          case 1
          with "1.prems"(3) in_range show ?thesis by (simp add: swap_elements_nth)
        next
          case 2
          with gt in_range show ?thesis by (simp add: swap_elements_nth word_sless_alt)
        qed
      qed
      with "1.IH"(1) [OF True in_range gt p] True show ?thesis by simp
    next
      case le: False
      with True in_range "1.prems"
      have p: "pass arr bound (i + 1) had = Inr (arr', had')"
        by (subst (asm) pass.simps) simp
      have "\<forall>k<i + 1. sint (arr ! k) \<le> sint (arr ! (i + 1))"
      proof (intro allI impI)
        fix k assume "k < i + 1"
        then consider "k < i" | "k = i" by linarith
        then show "sint (arr ! k) \<le> sint (arr ! (i + 1))"
        proof cases
          case 1
          with "1.prems"(3) have "sint (arr ! k) \<le> sint (arr ! i)" by simp
          moreover from le have "sint (arr ! i) \<le> sint (arr ! (i + 1))"
            by (simp add: word_sless_alt)
          ultimately show ?thesis by linarith
        next
          case 2
          with le show ?thesis by (simp add: word_sless_alt)
        qed
      qed
      with "1.IH"(2) [OF True in_range le p] True show ?thesis by simp
    qed
  qed
qed

lemma pass_prefix_mset:
  assumes p: "pass arr bound 0 False = Inr (arr', had')" and b: "bound < length arr"
  shows "mset (take (Suc bound) arr') = mset (take (Suc bound) arr)"
proof -
  from pass_returns [OF b, of 0 False] p have ms: "mset arr' = mset arr" by simp
  have "mset arr' = mset (take (Suc bound) arr') + mset (drop (Suc bound) arr')"
    by (metis append_take_drop_id mset_append)
  moreover have "mset arr = mset (take (Suc bound) arr) + mset (drop (Suc bound) arr)"
    by (metis append_take_drop_id mset_append)
  ultimately show ?thesis using ms pass_frame [OF p] by simp
qed


lemma bubbleSort_loop_correct:
  "n = int (length v) \<Longrightarrow> 0 \<le> i \<Longrightarrow>
   \<forall>p q. p < q \<and> nat (n - i) \<le> q \<and> q < length v \<longrightarrow> sint (v ! p) \<le> sint (v ! q) \<Longrightarrow>
   \<exists>ys. bubbleSort_loop v n i = Inr ys \<and> mset ys = mset v \<and> sorted (map sint ys)"
proof (induction v n i rule: bubbleSort_loop.induct)
  case (1 v n i)
  note inv = "1.prems"(3)
  show ?case
  proof (cases "i < n - 1")
    case False
    have "sorted (map sint v)"
      unfolding sorted_iff_nth_mono_less
    proof (intro allI impI)
      fix p q assume pq: "p < q" "q < length (map sint v)"
      with False "1.prems"(1) have "nat (n - i) \<le> q" by simp
      with inv pq show "map sint v ! p \<le> map sint v ! q" by simp
    qed
    with False show ?thesis by (subst bubbleSort_loop.simps) simp
  next
    case True
    let ?b = "nat (n - i - 1)"
    from True "1.prems" have b: "?b < length v" "Suc ?b = nat (n - i)" by simp_all
    from pass_returns [OF b(1), of 0 False]
    obtain v' sw where p: "pass v ?b 0 False = Inr (v', sw)"
      and len: "length v' = length v" and ms: "mset v' = mset v"
      by blast
    show ?thesis
    proof (cases sw)
      case False
      with p have p': "pass v ?b 0 False = Inr (v', False)" by simp
      from pass_no_swap [OF p']
      have eq: "v' = v" and adj: "\<forall>k. 0 \<le> k \<and> k < ?b \<longrightarrow> \<not> v ! (k + 1) <s v ! k"
        by simp_all
      have "\<forall>k. k < length v - 1 \<longrightarrow> \<not> v ! (k + 1) <s v ! k"
      proof (intro allI impI)
        fix k assume k: "k < length v - 1"
        show "\<not> v ! (k + 1) <s v ! k"
        proof (cases "k < ?b")
          case True
          with adj show ?thesis by simp
        next
          case False
          with b have "nat (n - i) \<le> k + 1" by simp
          with inv k have "sint (v ! k) \<le> sint (v ! (k + 1))" by simp
          then show ?thesis by (simp add: word_sless_alt)
        qed
      qed
      then have "sorted (map sint v)" by (rule adjacent_sorted)
      moreover from True p' have "bubbleSort_loop v n i = Inr v'"
        by (subst bubbleSort_loop.simps) simp
      ultimately show ?thesis using eq by simp
    next
      case sw: True
      from pass_max_last [OF p] have mx: "\<forall>k<?b. sint (v' ! k) \<le> sint (v' ! ?b)" by simp
      from pass_frame [OF p] have fr: "drop (Suc ?b) v' = drop (Suc ?b) v" .
      have fr_nth: "v' ! k = v ! k" if "Suc ?b \<le> k" "k < length v" for k
      proof -
        from that len have "v' ! k = drop (Suc ?b) v' ! (k - Suc ?b)" by simp
        also have "\<dots> = drop (Suc ?b) v ! (k - Suc ?b)" by (simp only: fr)
        also from that have "\<dots> = v ! k" by simp
        finally show ?thesis .
      qed
      from pass_prefix_mset [OF p b(1)]
      have pm: "mset (take (Suc ?b) v') = mset (take (Suc ?b) v)" .
      have inv': "\<forall>p q. p < q \<and> nat (n - (i + 1)) \<le> q \<and> q < length v' \<longrightarrow>
                    sint (v' ! p) \<le> sint (v' ! q)"
      proof (intro allI impI)
        fix p q assume a: "p < q \<and> nat (n - (i + 1)) \<le> q \<and> q < length v'"
        then have pq: "p < q" "?b \<le> q" "q < length v" using len by (simp_all add: algebra_simps)
        show "sint (v' ! p) \<le> sint (v' ! q)"
        proof (cases "q = ?b")
          case True
          with mx pq show ?thesis by simp
        next
          case False
          with pq have q: "Suc ?b \<le> q" by simp
          then have vq: "v' ! q = v ! q" using pq fr_nth by simp
          show ?thesis
          proof (cases "Suc ?b \<le> p")
            case True
            with pq have "v' ! p = v ! p" using fr_nth by simp
            moreover from inv pq q b have "sint (v ! p) \<le> sint (v ! q)" by simp
            ultimately show ?thesis using vq by simp
          next
            case False
            then have "p < Suc ?b" by simp
            with len b have "v' ! p \<in> set (take (Suc ?b) v')"
              by (metis length_take min.absorb2 less_imp_le_nat Suc_leI nth_take nth_mem)
            then have "v' ! p \<in> set (take (Suc ?b) v)" using pm by (metis set_mset_mset)
            then obtain p' where p': "p' < Suc ?b" "p' < length v" "v ! p' = v' ! p"
              by (auto simp: in_set_conv_nth)
            from inv have "p' < q \<and> nat (n - i) \<le> q \<and> q < length v \<longrightarrow>
                sint (v ! p') \<le> sint (v ! q)"
              by blast
            with p' q pq b have "sint (v ! p') \<le> sint (v ! q)" by simp
            with p' vq show ?thesis by simp
          qed
        qed
      qed
      from "1.prems"(1) len have "n = int (length v')" by simp
      moreover from "1.prems"(2) have "0 \<le> i + 1" by simp
      ultimately have "\<exists>ys. bubbleSort_loop v' n (i + 1) = Inr ys \<and> mset ys = mset v' \<and>
                         sorted (map sint ys)"
        using "1.IH" [OF True p _ _ _ _ inv'] sw by simp
      moreover from True p sw have "bubbleSort_loop v n i = bubbleSort_loop v' n (i + 1)"
        by (subst bubbleSort_loop.simps) simp
      ultimately show ?thesis using ms by simp
    qed
  qed
qed

lemma bubbleSort_correct:
  "\<exists>ys. bubbleSort v (int (length v)) = Inr ys \<and> mset ys = mset v \<and> sorted (map sint ys)"
  unfolding bubbleSort_def by (rule bubbleSort_loop_correct) simp_all

lemma bubbleSort_sorted_input:
  assumes s: "sorted (map sint v)"
  shows "bubbleSort v (int (length v)) = Inr v"
proof (cases "(0::int) < int (length v) - 1")
  case False
  then show ?thesis unfolding bubbleSort_def by (subst bubbleSort_loop.simps) simp
next
  case True
  then have b: "nat (int (length v) - 0 - 1) = length v - 1" "length v - 1 < length v" by simp_all
  have "pass v (length v - 1) 0 False = Inr (v, False)"
    using b sorted_adjacent [OF s] by (intro pass_ordered) simp_all
  with True b show ?thesis unfolding bubbleSort_def by (subst bubbleSort_loop.simps) simp
qed


lemma bubbleSort_run_loop:
  "bubbleSort_loop v n i = (case bubbleSort_run v n i of Inl f \<Rightarrow> Inl f | Inr (ys, flags) \<Rightarrow> Inr ys)"
proof (induction v n i rule: bubbleSort_run.induct)
  case (1 v n i)
  show ?case
  proof (cases "i < n - 1")
    case False
    then show ?thesis
      by (subst bubbleSort_loop.simps, subst bubbleSort_run.simps) simp
  next
    case True
    show ?thesis
    proof (cases "pass v (nat (n - i - 1)) 0 False")
      case (Inl f)
      with True show ?thesis
        by (subst bubbleSort_loop.simps, subst bubbleSort_run.simps) simp
    next
      case (Inr r)
      obtain v' sw where r: "r = (v', sw)" by (cases r)
      show ?thesis
      proof (cases sw)
        case False
        with True Inr r show ?thesis
          by (subst bubbleSort_loop.simps, subst bubbleSort_run.simps) simp
      next
        case sw: True
        from "1.IH" [OF True Inr r [symmetric]] sw
        have "bubbleSort_loop v' n (i + 1) =
          (case bubbleSort_run v' n (i + 1) of Inl f \<Rightarrow> Inl f | Inr (ys, flags) \<Rightarrow> Inr ys)"
          by simp
        with True Inr r sw show ?thesis
          by (subst bubbleSort_loop.simps, subst bubbleSort_run.simps)
            (simp split: sum.splits prod.splits)
      qed
    qed
  qed
qed

lemma bubbleSort_run_flags:
  "bubbleSort_run v n i = Inr (ys, flags) \<Longrightarrow>
   (\<exists>k. flags = replicate k True @ [False] \<and> k + 1 \<le> nat (n - 1 - i)) \<or>
   flags = replicate (nat (n - 1 - i)) True"
proof (induction v n i arbitrary: ys flags rule: bubbleSort_run.induct)
  case (1 v n i)
  show ?case
  proof (cases "i < n - 1")
    case False
    with "1.prems" have "flags = []" by (subst (asm) bubbleSort_run.simps) simp
    with False show ?thesis by simp
  next
    case True
    from True "1.prems" obtain v' sw where p: "pass v (nat (n - i - 1)) 0 False = Inr (v', sw)"
      by (subst (asm) bubbleSort_run.simps) (auto split: sum.splits)
    show ?thesis
    proof (cases sw)
      case False
      with True p "1.prems" have "flags = [False]"
        by (subst (asm) bubbleSort_run.simps) simp
      then have "flags = replicate 0 True @ [False]" by simp
      moreover from True have "0 + 1 \<le> nat (n - 1 - i)" by simp
      ultimately show ?thesis by blast
    next
      case sw: True
      with True p "1.prems" obtain fl where
        r: "bubbleSort_run v' n (i + 1) = Inr (ys, fl)" and fl: "flags = True # fl"
        by (subst (asm) bubbleSort_run.simps) (auto split: sum.splits)
      from True have n: "nat (n - 1 - i) = Suc (nat (n - 1 - (i + 1)))" by simp
      from "1.IH" [OF True p refl _ r] sw
      have "(\<exists>k. fl = replicate k True @ [False] \<and> k + 1 \<le> nat (n - 1 - (i + 1))) \<or>
            fl = replicate (nat (n - 1 - (i + 1))) True"
        by simp
      then show ?thesis
      proof
        assume "\<exists>k. fl = replicate k True @ [False] \<and> k + 1 \<le> nat (n - 1 - (i + 1))"
        then obtain k where "fl = replicate k True @ [False]" "k + 1 \<le> nat (n - 1 - (i + 1))"
          by blast
        with fl n have "flags = replicate (Suc k) True @ [False] \<and> Suc k + 1 \<le> nat (n - 1 - i)"
          by simp
        then show ?thesis by blast
      next
        assume "fl = replicate (nat (n - 1 - (i + 1))) True"
        with fl n have "flags = replicate (nat (n - 1 - i)) True" by simp
        then show ?thesis by blast
      qed
    qed
  qed
qed

lemma bubbleSort_run_correct:
  "\<exists>ys flags. bubbleSort_run v (int (length v)) 0 = Inr (ys, flags) \<and>
     bubbleSort v (int (length v)) = Inr ys \<and> mset ys = mset v \<and> sorted (map sint ys) \<and>
     ((\<exists>k. flags = replicate k True @ [False] \<and> k + 1 \<le> length v - 1) \<or>
      flags = replicate (length v - 1) True)"
proof -
  from bubbleSort_correct [of v] obtain ys where
    bs: "bubbleSort v (int (length v)) = Inr ys" and ms: "mset ys = mset v"
    and so: "sorted (map sint ys)"
    by blast
  from bs have "bubbleSort_loop v (int (length v)) 0 = Inr ys" by (simp add: bubbleSort_def)
  then obtain flags where r: "bubbleSort_run v (int (length v)) 0 = Inr (ys, flags)"
    by (subst (asm) bubbleSort_run_loop) (auto split: sum.splits)
  have "nat (int (length v) - 1 - 0) = length v - 1" by simp
  with bubbleSort_run_flags [OF r]
  have "(\<exists>k. flags = replicate k True @ [False] \<and> k + 1 \<le> length v - 1) \<or>
      flags = replicate (length v - 1) True"
    by simp
  with r bs ms so show ?thesis by blast
qed


section \<open>Properties of the parser and the printers\<close>

lemma count_commas_eq:
  "count_commas s n = n + length (filter (\<lambda>c. c = CHR '','') s)"
  by (induction s arbitrary: n) simp_all

lemma strtok_None: "strtok s '','' = None \<longleftrightarrow> dropWhile (\<lambda>c. c = CHR '','') s = []"
  by (simp add: strtok_def Let_def)

lemma strtok_Some:
  assumes "strtok s '','' = Some (token, rest)"
  shows "\<exists>cs tl. s = cs @ token @ tl \<and> set cs \<subseteq> {CHR '',''} \<and> token \<noteq> [] \<and>
           CHR '','' \<notin> set token \<and> (tl = [] \<or> hd tl = CHR '','') \<and> rest = drop 1 tl"
proof -
  let ?s = "dropWhile (\<lambda>c. c = CHR '','') s"
  from assms have ne: "?s \<noteq> []"
    and token: "token = takeWhile (\<lambda>c. c \<noteq> CHR '','') ?s"
    and rest: "rest = drop 1 (dropWhile (\<lambda>c. c \<noteq> CHR '','') ?s)"
    by (auto simp: strtok_def Let_def split: if_splits)
  let ?cs = "takeWhile (\<lambda>c. c = CHR '','') s"
  let ?tl = "dropWhile (\<lambda>c. c \<noteq> CHR '','') ?s"
  have "s = ?cs @ ?s" by simp
  also have "?s = token @ ?tl" using token by simp
  finally have "s = ?cs @ token @ ?tl" .
  moreover have "set ?cs \<subseteq> {CHR '',''}" by (auto dest: set_takeWhileD)
  moreover from ne hd_dropWhile [of "\<lambda>c. c = CHR '',''" s] have "hd ?s \<noteq> CHR '',''" by simp
  with ne token have "token \<noteq> []" by (cases ?s) auto
  moreover have "CHR '','' \<notin> set token" using token by (auto dest: set_takeWhileD)
  moreover have "?tl = [] \<or> hd ?tl = CHR '',''"
    using hd_dropWhile [of "\<lambda>c. c \<noteq> CHR '',''" ?s] by auto
  ultimately show ?thesis using rest by blast
qed

lemma strtok_commas:
  assumes "strtok s '','' = Some (token, rest)" and "rest \<noteq> []"
  shows "Suc (count_commas rest 0) \<le> count_commas s 0"
proof -
  from strtok_Some [OF assms(1)] obtain cs tl where
    s: "s = cs @ token @ tl" and tl: "tl = [] \<or> hd tl = CHR '',''" and rest: "rest = drop 1 tl"
    by blast
  from assms(2) rest tl have "tl = CHR '','' # rest" by (cases tl) auto
  with s show ?thesis by (simp add: count_commas_eq)
qed

lemma length_tokens:
  "length (tokens s) \<le> (if s = [] then 0 else Suc (count_commas s 0))"
proof (induction s rule: tokens.induct)
  case (1 s)
  show ?case
  proof (cases "strtok s '',''")
    case None
    then show ?thesis by (subst tokens.simps) simp
  next
    case (Some a)
    then obtain token rest where a: "a = (token, rest)" by (cases a)
    with Some have tk: "strtok s '','' = Some (token, rest)" by simp
    from strtok_Some [OF tk] have ne: "s \<noteq> []" by auto
    have ts: "tokens s = token # tokens rest" using tk by (subst tokens.simps) simp
    show ?thesis
    proof (cases "rest = []")
      case True
      then have "tokens rest = []" by (subst tokens.simps) (simp add: strtok_def)
      with ts ne show ?thesis by simp
    next
      case False
      from "1.IH" [OF Some a [symmetric]] False
      have "length (tokens rest) \<le> Suc (count_commas rest 0)" by simp
      with strtok_commas [OF tk False] ts ne show ?thesis by simp
    qed
  qed
qed

lemma tokens_Some:
  "strtok s '','' = Some (token, rest) \<Longrightarrow> tokens s = token # tokens rest"
  by (subst tokens.simps) simp

lemma strtok_comma_free_prefix:
  assumes "t \<noteq> []" and "CHR '','' \<notin> set t" and "post = [] \<or> hd post = CHR '',''"
    and "set cs \<subseteq> {CHR '',''}"
  shows "strtok (cs @ t @ post) '','' = Some (t, drop 1 post)"
proof -
  from assms(1,2) have hd: "hd t \<noteq> CHR '',''" by (cases t) auto
  from assms(4) have "\<forall>c \<in> set cs. c = CHR '',''" by auto
  then have "dropWhile (\<lambda>c. c = CHR '','') (cs @ t @ post) = dropWhile (\<lambda>c. c = CHR '','') (t @ post)"
    by (simp add: dropWhile_append2)
  also from assms(1) hd have "\<dots> = t @ post" by (cases t) auto
  finally have d: "dropWhile (\<lambda>c. c = CHR '','') (cs @ t @ post) = t @ post" .
  from assms(2) have all: "\<forall>c \<in> set t. c \<noteq> CHR '',''" by auto
  then have twt: "takeWhile (\<lambda>c. c \<noteq> CHR '','') t = t" by (simp add: takeWhile_eq_all_conv)
  from all have dwt: "dropWhile (\<lambda>c. c \<noteq> CHR '','') t = []" by (simp add: dropWhile_eq_Nil_conv)
  have tw: "takeWhile (\<lambda>c. c \<noteq> CHR '','') (t @ post) = t"
  proof (cases post)
    case Nil
    with twt show ?thesis by simp
  next
    case (Cons x xs)
    with assms(3) have "post = CHR '','' # xs" by simp
    with twt show ?thesis by (simp add: takeWhile_tail)
  qed
  have dw: "dropWhile (\<lambda>c. c \<noteq> CHR '','') (t @ post) = post"
  proof (cases post)
    case Nil
    with dwt show ?thesis by simp
  next
    case (Cons x xs)
    with assms(3) have "post = CHR '','' # xs" by simp
    with dwt show ?thesis by (simp add: dropWhile_append3)
  qed
  from d tw dw assms(1) show ?thesis by (simp add: strtok_def Let_def)
qed

text \<open>
  The tokens are exactly the fields of the string: the non-empty stretches without a
  comma that reach from the start or a comma to the end or a comma.
\<close>

lemma split_leading_commas:
  "\<exists>cs p1. pre = cs @ p1 \<and> set cs \<subseteq> {CHR '',''} \<and> (p1 = [] \<or> hd p1 \<noteq> CHR '','')"
proof -
  let ?cs = "takeWhile (\<lambda>c. c = CHR '','') pre"
  let ?p1 = "dropWhile (\<lambda>c. c = CHR '','') pre"
  have a: "pre = ?cs @ ?p1" by (rule takeWhile_dropWhile_id [symmetric])
  have b: "set ?cs \<subseteq> {CHR '',''}" by (auto dest: set_takeWhileD)
  have c: "?p1 = [] \<or> hd ?p1 \<noteq> CHR '',''"
    using hd_dropWhile [of "\<lambda>c. c = CHR '',''" pre] by auto
  from a b c show ?thesis by (intro exI [of _ ?cs] exI [of _ ?p1] conjI)
qed

lemma split_first_field:
  assumes "p1 \<noteq> []" and "hd p1 \<noteq> CHR '',''" and "CHR '','' \<in> set p1"
  shows "\<exists>tk pre2. p1 = tk @ CHR '','' # pre2 \<and> tk \<noteq> [] \<and> CHR '','' \<notin> set tk"
proof -
  from split_list_first [OF assms(3)] obtain tk pre2 where
    p: "p1 = tk @ CHR '','' # pre2" and n: "CHR '','' \<notin> set tk"
    by blast
  have "tk \<noteq> []"
  proof
    assume "tk = []"
    with p have "hd p1 = CHR '',''" by simp
    with assms(2) show False by simp
  qed
  with p n show ?thesis by blast
qed

lemma field_is_token:
  "t \<noteq> [] \<Longrightarrow> CHR '','' \<notin> set t \<Longrightarrow> pre = [] \<or> last pre = CHR '','' \<Longrightarrow>
   post = [] \<or> hd post = CHR '','' \<Longrightarrow> t \<in> set (tokens (pre @ t @ post))"
proof (induction "length pre" arbitrary: pre rule: less_induct)
  case less
  from split_leading_commas [of pre] obtain cs p1 where
    pre: "pre = cs @ p1" and cs: "set cs \<subseteq> {CHR '',''}" and p1: "p1 = [] \<or> hd p1 \<noteq> CHR '',''"
    by blast
  show ?case
  proof (cases "p1 = []")
    case True
    with pre cs have "set pre \<subseteq> {CHR '',''}" by simp
    from strtok_comma_free_prefix [OF less.prems(1,2,4) this]
    show ?thesis by (simp add: tokens_Some)
  next
    case False
    with p1 have h1: "hd p1 \<noteq> CHR '',''" by simp
    from False pre have "pre \<noteq> []" by simp
    with less.prems(3) have "last pre = CHR '',''" by simp
    with False pre have l1: "last p1 = CHR '',''" by simp
    with False have "CHR '','' \<in> set p1" using last_in_set [of p1] by simp
    from split_first_field [OF False h1 this] obtain tk pre2 where
      p1': "p1 = tk @ CHR '','' # pre2" and tk: "tk \<noteq> []" and tkc: "CHR '','' \<notin> set tk"
      by blast
    have "CHR '','' # pre2 @ t @ post = [] \<or> hd (CHR '','' # pre2 @ t @ post) = CHR '',''"
      by simp
    from strtok_comma_free_prefix [OF tk tkc this cs]
    have "strtok (cs @ tk @ CHR '','' # pre2 @ t @ post) '','' = Some (tk, pre2 @ t @ post)"
      by simp
    then have "tokens (cs @ tk @ CHR '','' # pre2 @ t @ post) = tk # tokens (pre2 @ t @ post)"
      by (rule tokens_Some)
    moreover have "pre @ t @ post = cs @ tk @ CHR '','' # pre2 @ t @ post"
      by (simp add: pre p1')
    ultimately have ts: "tokens (pre @ t @ post) = tk # tokens (pre2 @ t @ post)" by simp
    have shorter: "length pre2 < length pre" by (simp add: pre p1')
    have "pre2 = [] \<or> last pre2 = CHR '',''"
    proof (cases "pre2 = []")
      case True
      then show ?thesis by simp
    next
      case False
      with l1 show ?thesis by (simp add: p1')
    qed
    from less.hyps [OF shorter less.prems(1,2) this less.prems(4)]
    have "t \<in> set (tokens (pre2 @ t @ post))" .
    with ts show ?thesis by simp
  qed
qed

lemma token_is_field:
  "t \<in> set (tokens s) \<Longrightarrow>
   \<exists>pre post. s = pre @ t @ post \<and> t \<noteq> [] \<and> CHR '','' \<notin> set t \<and>
     (pre = [] \<or> last pre = CHR '','') \<and> (post = [] \<or> hd post = CHR '','')"
proof (induction s rule: tokens.induct)
  case (1 s)
  show ?case
  proof (cases "strtok s '',''")
    case None
    with "1.prems" show ?thesis by (subst (asm) tokens.simps) simp
  next
    case (Some a)
    then obtain token rest where a: "a = (token, rest)" by (cases a)
    with Some have tk: "strtok s '','' = Some (token, rest)" by simp
    from strtok_Some [OF tk] obtain cs tl where
      s: "s = cs @ token @ tl" and cs: "set cs \<subseteq> {CHR '',''}" and ne: "token \<noteq> []"
      and nc: "CHR '','' \<notin> set token" and tl: "tl = [] \<or> hd tl = CHR '',''"
      and rest: "rest = drop 1 tl"
      by blast
    from cs have csl: "cs = [] \<or> last cs = CHR '',''"
      by (cases "cs = []") (auto dest: last_in_set)
    from "1.prems" tk have "t = token \<or> t \<in> set (tokens rest)" by (simp add: tokens_Some)
    then show ?thesis
    proof
      assume "t = token"
      with s ne nc tl csl show ?thesis by blast
    next
      assume "t \<in> set (tokens rest)"
      from "1.IH" [OF Some a [symmetric] this] obtain pre post where
        r: "rest = pre @ t @ post" and f: "t \<noteq> []" "CHR '','' \<notin> set t"
        "pre = [] \<or> last pre = CHR '',''" "post = [] \<or> hd post = CHR '',''"
        by blast
      from r f(1) have "rest \<noteq> []" by simp
      with rest tl have "tl = CHR '','' # rest" by (cases tl) auto
      with s r have "s = (cs @ token @ CHR '','' # pre) @ t @ post" by simp
      moreover have "last (cs @ token @ CHR '','' # pre) = CHR '',''"
        using f(3) by (cases "pre = []") auto
      ultimately show ?thesis using f by blast
    qed
  qed
qed


lemma tokens_pending: "tokens s = pending (strtok s '','')"
  by (subst tokens.simps) (simp split: option.splits)

lemma parse_loop_result:
  "curr_index + length (pending token) \<le> length arr \<Longrightarrow>
   parse_loop lib token arr curr_index =
     (if \<exists>t \<in> set (pending token). snd (strtol lib t) \<noteq> 0 then Inr None
      else Inr (Some (take curr_index arr @ map (\<lambda>t. fst (strtol lib t)) (pending token) @
                      drop (curr_index + length (pending token)) arr)))"
proof (induction lib token arr curr_index rule: parse_loop.induct)
  case (1 lib arr curr_index)
  then show ?case by (simp add: parse_loop.simps)
next
  case (2 lib token rest arr curr_index)
  obtain v e where st: "strtol lib token = (v, e)" by (cases "strtol lib token")
  show ?case
  proof (cases "e = 0")
    case False
    with st show ?thesis by (simp add: parse_loop.simps)
  next
    case True
    from "2.prems" have in_range: "curr_index < length arr" by simp
    from "2.prems" have
      "curr_index + 1 + length (pending (strtok rest '','')) \<le> length (arr[curr_index := v])"
      by (simp add: tokens_pending)
    from "2.IH" [OF st [symmetric] refl _ in_range this] True
    have IH: "parse_loop lib (strtok rest '','') (arr[curr_index := v]) (curr_index + 1) =
       (if \<exists>t \<in> set (tokens rest). snd (strtol lib t) \<noteq> 0 then Inr None
        else Inr (Some (take (curr_index + 1) (arr[curr_index := v]) @
               map (\<lambda>t. fst (strtol lib t)) (tokens rest) @
               drop (curr_index + 1 + length (tokens rest)) (arr[curr_index := v]))))"
      by (simp add: tokens_pending)
    have "take (curr_index + 1) (arr[curr_index := v]) = take curr_index arr @ [v]"
      using in_range by (simp add: take_Suc_conv_app_nth)
    with IH st True in_range show ?thesis
      by (simp add: parse_loop.simps)
  qed
qed

lemma parse_list_result:
  "parse_list lib junk s =
     (if count_commas s 0 = 0 \<or> (\<exists>t \<in> set (tokens s). snd (strtol lib t) \<noteq> 0)
      then Inr (None, 0)
      else Inr (Some (map (\<lambda>t. fst (strtol lib t)) (tokens s) @
                      map junk [length (tokens s) ..< Suc (count_commas s 0)]),
                Suc (count_commas s 0)))"
proof (cases "count_commas s 0 = 0")
  case True
  then show ?thesis by (simp add: parse_list_def)
next
  case False
  then have ne: "s \<noteq> []" by auto
  let ?n = "Suc (count_commas s 0)"
  from length_tokens [of s] ne have len: "length (tokens s) \<le> ?n" by simp
  then have "0 + length (pending (strtok s '','')) \<le> length (malloc junk ?n)"
    by (simp add: malloc_def tokens_pending)
  from parse_loop_result [OF this, of lib]
  have "parse_loop lib (strtok s '','') (malloc junk ?n) 0 =
     (if \<exists>t \<in> set (tokens s). snd (strtol lib t) \<noteq> 0 then Inr None
      else Inr (Some (map (\<lambda>t. fst (strtol lib t)) (tokens s) @
                      drop (length (tokens s)) (malloc junk ?n))))"
    by (simp add: tokens_pending)
  moreover have "drop (length (tokens s)) (malloc junk ?n) = map junk [length (tokens s) ..< ?n]"
    by (simp add: malloc_def drop_map)
  ultimately show ?thesis using False by (simp add: parse_list_def Let_def)
qed

lemma print_loop_result:
  "bound \<le> length arr \<Longrightarrow>
   print_loop arr bound i out =
     Inr (out @ concat (map (\<lambda>x. show_signed x @ '', '') (take (bound - i) (drop i arr))))"
proof (induction arr bound i out rule: print_loop.induct)
  case (1 arr bound i out)
  show ?case
  proof (cases "i < bound")
    case False
    then show ?thesis by (subst print_loop.simps) simp
  next
    case True
    with "1.prems" have in_range: "i < length arr" by simp
    from True have "bound - i = Suc (bound - (i + 1))" by simp
    then have "take (bound - i) (drop i arr) = arr ! i # take (bound - (i + 1)) (drop (i + 1) arr)"
      using in_range by (simp add: Cons_nth_drop_Suc [symmetric])
    with "1.IH" [OF True in_range "1.prems"] True in_range show ?thesis
      by (subst print_loop.simps) simp
  qed
qed

lemma print_array_result:
  assumes "arr \<noteq> []"
  shows "print_array arr (length arr) =
     Inr (printed arr)"
proof -
  from assms have b: "size_t_sub (length arr) 1 = length arr - 1" "length arr - 1 < length arr"
    using size_t_sub_1 [of arr] by auto
  from b have "print_loop arr (length arr - 1) 0 [] =
     Inr (concat (map (\<lambda>x. show_signed x @ '', '') (take (length arr - 1) arr)))"
    by (subst print_loop_result) simp_all
  moreover have "take (length arr - 1) arr = butlast arr" by (simp add: butlast_conv_take)
  moreover have "arr ! (length arr - 1) = last arr" using assms by (simp add: last_conv_nth)
  ultimately show ?thesis using b by (simp add: print_array_def printed_def)
qed

lemma print_cpp_loop_result:
  "size' = int (length v) \<Longrightarrow> 0 \<le> i \<Longrightarrow>
   print_cpp_loop v size' i out =
     Inr (out @ concat (map (\<lambda>k. show_signed (v ! k) @ (if Suc k = length v then [CHR 0x0A] else '', ''))
                            [nat i ..< length v]))"
proof (induction v size' i out rule: print_cpp_loop.induct)
  case (1 v size' i out)
  show ?case
  proof (cases "i < size'")
    case False
    with "1.prems" show ?thesis by (subst print_cpp_loop.simps) simp
  next
    case True
    with "1.prems" have in_range: "0 \<le> i \<and> nat i < length v" by simp
    from "1.prems" have i1: "0 \<le> i + 1" "nat (i + 1) = Suc (nat i)" by simp_all
    from in_range have up: "[nat i ..< length v] = nat i # [Suc (nat i) ..< length v]"
      by (simp add: upt_conv_Cons)
    from "1.prems" in_range have last: "i = size' - 1 \<longleftrightarrow> Suc (nat i) = length v" by auto
    show ?thesis
    proof (cases "i = size' - 1")
      case eq: True
      from "1.IH"(1) [OF True in_range eq "1.prems"(1) i1(1)] True in_range eq up i1 last
      show ?thesis by (subst print_cpp_loop.simps) simp
    next
      case ne: False
      from "1.IH"(2) [OF True in_range ne "1.prems"(1) i1(1)] True in_range ne up i1 last
      show ?thesis by (subst print_cpp_loop.simps) simp
    qed
  qed
qed

lemma concat_map_upt_butlast:
  assumes "n = length v - 1"
  shows "concat (map (\<lambda>k. f (v ! k) @ (if Suc k = length v then a else b)) [0 ..< n])
     = concat (map (\<lambda>x. f x @ b) (butlast v))"
proof -
  have "map (\<lambda>k. f (v ! k) @ (if Suc k = length v then a else b)) [0 ..< n]
      = map (\<lambda>k. f (butlast v ! k) @ b) [0 ..< length (butlast v)]"
    using assms by (auto simp: nth_butlast)
  also have "\<dots> = map (\<lambda>x. f x @ b) (map (\<lambda>k. butlast v ! k) [0 ..< length (butlast v)])"
    by (simp add: comp_def)
  also have "\<dots> = map (\<lambda>x. f x @ b) (butlast v)" by (simp only: map_nth)
  finally show ?thesis by simp
qed

lemma print_cpp_result:
  assumes "v \<noteq> []"
  shows "print_cpp v (int (length v)) =
     Inr (printed v)"
proof -
  from assms have "[0 ..< length v] = [0 ..< length v - 1] @ [length v - 1]"
    by (metis Suc_diff_1 length_greater_0_conv upt_Suc_append zero_le)
  moreover from assms have "v ! (length v - 1) = last v" by (simp add: last_conv_nth)
  moreover from assms have "Suc (length v - 1) = length v" by simp
  ultimately show ?thesis
    unfolding print_cpp_def
    by (subst print_cpp_loop_result) (simp_all add: concat_map_upt_butlast printed_def)
qed


section \<open>Properties of the two drivers\<close>

lemma parse_list_cases:
  "parse_list lib junk s = Inr (None, 0) \<or>
   (\<exists>arr. parse_list lib junk s = Inr (Some arr, length arr) \<and> 2 \<le> length arr)"
proof (cases "count_commas s 0 = 0 \<or> (\<exists>t \<in> set (tokens s). snd (strtol lib t) \<noteq> 0)")
  case True
  then show ?thesis by (simp add: parse_list_result)
next
  case False
  then have "s \<noteq> []" by auto
  with length_tokens [of s] have "length (tokens s) \<le> Suc (count_commas s 0)" by simp
  with False show ?thesis by (simp add: parse_list_result)
qed

lemma parse_list_Some:
  assumes "parse_list lib junk s = Inr (Some arr, n)"
  shows "n = length arr \<and> 2 \<le> length arr"
  using parse_list_cases [of lib junk s] assms by auto

lemma main_c_usage:
  "length argv < 2 \<or> parse_list lib junk (argv ! 1) = Inr (None, 0) \<Longrightarrow>
   main_c lib junk argv =
     Some (Inr \<lparr>exit_code = 1, stdout = [], stderr = usage_text @ [CHR 0x0A]\<rparr>)"
  by (auto simp: main_c_def usage_def Let_def)

lemma main_c_sorts:
  assumes argc: "2 \<le> length argv" and p: "parse_list lib junk (argv ! 1) = Inr (Some arr, n)"
  shows "\<exists>ys. main_c lib junk argv =
              Some (Inr \<lparr>exit_code = 0, stdout = printed ys, stderr = []\<rparr>) \<and>
            mset ys = mset arr \<and> sorted (map sint ys)"
proof -
  from parse_list_Some [OF p] have n: "n = length arr" and len: "2 \<le> length arr" by simp_all
  then have ne: "arr \<noteq> []" by auto
  from bubble_sort_total [OF ne] obtain ys where
    bs: "bubble_sort arr (length arr) = Some (Inr ys)" and ms: "mset ys = mset arr"
    and so: "sorted (map sint ys)"
    by blast
  from ms have leq: "length ys = length arr" by (metis size_mset)
  with ne have "ys \<noteq> []" by auto
  from print_array_result [OF this] leq have "print_array ys (length arr) = Inr (printed ys)"
    by simp
  with argc p n len bs have "main_c lib junk argv =
      Some (Inr \<lparr>exit_code = 0, stdout = printed ys, stderr = []\<rparr>)"
    by (auto simp: main_c_def Let_def)
  with ms so show ?thesis by blast
qed

lemma main_cpp_usage:
  "length (numbers argv) < 2 \<Longrightarrow>
   main_cpp argv = Inr \<lparr>exit_code = 0, stdout = usage_text @ [CHR 0x0A], stderr = []\<rparr>"
  by (simp add: main_cpp_def Let_def)

lemma main_cpp_sorts:
  assumes "2 \<le> length (numbers argv)"
  shows "\<exists>ys. main_cpp argv = Inr \<lparr>exit_code = 0, stdout = printed ys, stderr = []\<rparr> \<and>
            mset ys = mset (numbers argv) \<and> sorted (map sint ys)"
proof -
  from bubbleSort_correct [of "numbers argv"] obtain ys where
    bs: "bubbleSort (numbers argv) (int (length (numbers argv))) = Inr ys"
    and ms: "mset ys = mset (numbers argv)" and so: "sorted (map sint ys)"
    by blast
  from ms have leq: "length ys = length (numbers argv)" by (metis size_mset)
  with assms have "ys \<noteq> []" by auto
  from print_cpp_result [OF this] leq
  have "print_cpp ys (int (length (numbers argv))) = Inr (printed ys)" by simp
  with assms bs have "main_cpp argv = Inr \<lparr>exit_code = 0, stdout = printed ys, stderr = []\<rparr>"
    by (simp add: main_cpp_def Let_def)
  with ms so show ?thesis by blast
qed

lemma numbers_argc: "length argv \<noteq> 2 \<Longrightarrow> numbers argv = []"
  by (simp add: numbers_def)


lemma strtol_error_parse_fails:
  assumes "t \<in> set (tokens s)" and "snd (strtol lib t) \<noteq> 0"
  shows "parse_list lib junk s = Inr (None, 0)"
  using assms by (auto simp: parse_list_result)

lemma strtol_skips_space:
  assumes "\<forall>c \<in> set ws. isspace c"
  shows "strtol lib (ws @ token) = strtol lib token"
proof -
  from assms have "dropWhile isspace (ws @ token) = dropWhile isspace token"
    by (simp add: dropWhile_append2)
  then show ?thesis by (simp add: strtol_def subject_value_def)
qed

lemma format_loop_separators:
  "format_loop s i c = True \<Longrightarrow> i + 3 * k < length s \<Longrightarrow>
   s ! (i + 3 * k) = CHR '','' \<and> i + 3 * k + 1 < length s \<and> s ! (i + 3 * k + 1) = CHR '' ''"
proof (induction s i c arbitrary: k rule: format_loop.induct)
  case (1 s i c)
  from "1.prems"(2) have i: "i < length s" by simp
  with "1.prems"(1) have sep: "char_at s i = CHR '',''" "char_at s (i + 1) = CHR '' ''"
    and rec: "format_loop s (i + 3) True = True"
    by (subst (asm) format_loop.simps, simp split: if_splits)+
  from sep(2) have i1: "i + 1 < length s" by (auto simp: char_at_def split: if_splits)
  show ?case
  proof (cases k)
    case 0
    with sep i i1 show ?thesis by (simp add: char_at_def)
  next
    case (Suc k')
    then have k: "i + 3 * k = i + 3 + 3 * k'" by simp
    with "1.prems"(2) have "i + 3 + 3 * k' < length s" by simp
    from "1.IH" [OF i _ rec this] sep show ?thesis by (simp only: k)
  qed
qed

section \<open>Main results: the sorter\<close>

text \<open>
  C8, as amended. The C sorter, run on a sequence of at least one element (the program
  gives it at least two), terminates: it returns a sorted permutation, and the pass over
  the array it returns performs no swap (the only way out of its loop; every pass that
  swaps lowers the number of inversions, so such a pass is reached). The C++ sorter
  terminates on every sequence with a sorted permutation, and the passes it makes are
  either some passes that swap followed by one that does not, at most \<open>n - 1\<close> in all,
  or exactly \<open>n - 1\<close> passes that all swap.
\<close>

theorem sorter_terminates:
  "(arr \<noteq> [] \<longrightarrow>
      (\<exists>ys. bubble_sort arr (length arr) = Some (Inr ys) \<and>
            pass ys (size_t_sub (length arr) 1) 0 False = Inr (ys, False) \<and>
            mset ys = mset arr \<and> sorted (map sint ys))) \<and>
   (\<exists>ys flags. bubbleSort v (int (length v)) = Inr ys \<and>
        bubbleSort_run v (int (length v)) 0 = Inr (ys, flags) \<and>
        mset ys = mset v \<and> sorted (map sint ys) \<and>
        ((\<exists>k. flags = replicate k True @ [False] \<and> k + 1 \<le> length v - 1) \<or>
         flags = replicate (length v - 1) True))"
proof (rule conjI)
  show "arr \<noteq> [] \<longrightarrow>
      (\<exists>ys. bubble_sort arr (length arr) = Some (Inr ys) \<and>
            pass ys (size_t_sub (length arr) 1) 0 False = Inr (ys, False) \<and>
            mset ys = mset arr \<and> sorted (map sint ys))"
  proof
    assume "arr \<noteq> []"
    from bubble_sort_total [OF this] show
      "\<exists>ys. bubble_sort arr (length arr) = Some (Inr ys) \<and>
            pass ys (size_t_sub (length arr) 1) 0 False = Inr (ys, False) \<and>
            mset ys = mset arr \<and> sorted (map sint ys)"
      by blast
  qed
next
  from bubbleSort_run_correct [of v] show
    "\<exists>ys flags. bubbleSort v (int (length v)) = Inr ys \<and>
        bubbleSort_run v (int (length v)) 0 = Inr (ys, flags) \<and>
        mset ys = mset v \<and> sorted (map sint ys) \<and>
        ((\<exists>k. flags = replicate k True @ [False] \<and> k + 1 \<le> length v - 1) \<or>
         flags = replicate (length v - 1) True)"
    by blast
qed

theorem sorter_terminates_witness:
  "[3, 1, 2 :: long] \<noteq> [] \<and>
   (\<exists>ys. bubble_sort [3, 1, 2] (length [3, 1, 2 :: long]) = Some (Inr ys) \<and>
         pass ys (size_t_sub (length [3, 1, 2 :: long]) 1) 0 False = Inr (ys, False) \<and>
         mset ys = mset [3, 1, 2] \<and> sorted (map sint ys)) \<and>
   (\<exists>ys flags. bubbleSort [3, 1, 2] (int (length [3, 1, 2 :: cint])) = Inr ys \<and>
        bubbleSort_run [3, 1, 2] (int (length [3, 1, 2 :: cint])) 0 = Inr (ys, flags) \<and>
        mset ys = mset [3, 1, 2] \<and> sorted (map sint ys) \<and>
        ((\<exists>k. flags = replicate k True @ [False] \<and> k + 1 \<le> length [3, 1, 2 :: cint] - 1) \<or>
         flags = replicate (length [3, 1, 2 :: cint] - 1) True))"
proof -
  have a: "[3, 1, 2 :: long] \<noteq> []" by simp
  note t = sorter_terminates [of "[3, 1, 2]" "[3, 1, 2]"]
  note q1 = t [THEN conjunct1, THEN mp, OF a]
  note q2 = t [THEN conjunct2]
  show ?thesis by (rule conjI a q1 q2)+
qed

text \<open>
  C8 as stated fails on the C++ sorter. On the two elements 2, 1 it makes one pass,
  which swaps, and then leaves its loop because the pass count is used up: it exits
  without ever making a pass that performs no swap.
\<close>

theorem sorter_terminates_counterexample:
  "bubbleSort [2, 1] 2 = Inr [1, 2] \<and>
   bubbleSort_run [2, 1] 2 0 = Inr ([1, 2], [True]) \<and>
   pass [2, 1 :: cint] (nat (2 - 0 - 1)) 0 False = Inr ([1, 2], True) \<and>
   \<not> ((0 :: int) + 1 < 2 - 1)"
proof (intro conjI)
  show "bubbleSort [2, 1] 2 = Inr [1, 2]" by code_simp
  show "bubbleSort_run [2, 1] 2 0 = Inr ([1, 2], [True])" by code_simp
  show "pass [2, 1 :: cint] (nat (2 - 0 - 1)) 0 False = Inr ([1, 2], True)"
    by code_simp
  show "\<not> ((0 :: int) + 1 < 2 - 1)" by simp
qed

text \<open>
  C9. Sorting is idempotent: run on a sequence that is already sorted, either sorter
  returns the same sequence. For the C sorter the sequence has at least one element;
  that covers every call the program makes, since \<^verbatim>\<open>main\<close> skips the sorter when
  \<^verbatim>\<open>parse_list\<close> returns 0 and \<^verbatim>\<open>parse_list\<close> returns no other count below 2 (lemma
  \<open>parse_list_Some\<close>). The C++ sorter is covered on every sorted sequence.
\<close>

theorem sorter_idempotent:
  "(arr \<noteq> [] \<and> sorted (map sint arr) \<longrightarrow> bubble_sort arr (length arr) = Some (Inr arr)) \<and>
   (sorted (map sint v) \<longrightarrow> bubbleSort v (int (length v)) = Inr v)"
  using bubble_sort_sorted_input [of arr] bubbleSort_sorted_input [of v] by blast

theorem sorter_idempotent_witness:
  "[- 4, 0, 0, 7 :: long] \<noteq> [] \<and> sorted (map sint [- 4, 0, 0, 7 :: long]) \<and>
   bubble_sort [- 4, 0, 0, 7] (length [- 4, 0, 0, 7 :: long]) = Some (Inr [- 4, 0, 0, 7]) \<and>
   sorted (map sint [- 1, 5 :: cint]) \<and>
   bubbleSort [- 1, 5] (int (length [- 1, 5 :: cint])) = Inr [- 1, 5]"
proof -
  have a: "sorted (map sint [- 4, 0, 0, 7 :: long])" by simp
  have b: "sorted (map sint [- 1, 5 :: cint])" by simp
  from a b sorter_idempotent [of "[- 4, 0, 0, 7]" "[- 1, 5]"] show ?thesis by simp
qed

section \<open>Main results: the whole program\<close>

text \<open>
  C1. For every input the parser accepts, the line printed is that of a sequence that is
  a permutation of the parsed one and is non-decreasing. In the C fixture the parsed
  sequence is the array \<^verbatim>\<open>parse_list\<close> hands back with a count other than 0; in the C++
  fixture it is the vector \<^verbatim>\<open>numbers\<close> when it has at least two elements.
\<close>

theorem printed_sequence_sorted_permutation:
  "(2 \<le> length argv \<and> parse_list lib junk (argv ! 1) = Inr (Some arr, n) \<longrightarrow>
      (\<exists>ys. main_c lib junk argv =
               Some (Inr \<lparr>exit_code = 0, stdout = printed ys, stderr = []\<rparr>) \<and>
            mset ys = mset arr \<and> sorted (map sint ys))) \<and>
   (2 \<le> length (numbers argv') \<longrightarrow>
      (\<exists>ys. main_cpp argv' = Inr \<lparr>exit_code = 0, stdout = printed ys, stderr = []\<rparr> \<and>
            mset ys = mset (numbers argv') \<and> sorted (map sint ys)))"
  using main_c_sorts [of argv lib junk arr n] main_cpp_sorts [of argv'] by blast

theorem printed_sequence_sorted_permutation_witness:
  "2 \<le> length [''sort'', ''5,3,1,2,4''] \<and>
   parse_list Errno_unchanged (\<lambda>_. 0) ([''sort'', ''5,3,1,2,4''] ! 1) = Inr (Some [5, 3, 1, 2, 4], 5) \<and>
   (\<exists>ys. main_c Errno_unchanged (\<lambda>_. 0) [''sort'', ''5,3,1,2,4''] =
            Some (Inr \<lparr>exit_code = 0, stdout = printed ys, stderr = []\<rparr>) \<and>
         mset ys = mset [5, 3, 1, 2, 4 :: long] \<and> sorted (map sint ys)) \<and>
   2 \<le> length (numbers [''sort'', ''3, 1, 2'']) \<and>
   (\<exists>ys. main_cpp [''sort'', ''3, 1, 2''] =
            Inr \<lparr>exit_code = 0, stdout = printed ys, stderr = []\<rparr> \<and>
         mset ys = mset (numbers [''sort'', ''3, 1, 2'']) \<and> sorted (map sint ys))"
proof -
  have a: "2 \<le> length [''sort'', ''5,3,1,2,4'']" by simp
  have b: "parse_list Errno_unchanged (\<lambda>_. 0) ([''sort'', ''5,3,1,2,4''] ! 1)
             = Inr (Some [5, 3, 1, 2, 4], 5)"
    by code_simp
  have c: "2 \<le> length (numbers [''sort'', ''3, 1, 2''])" by code_simp
  note t = printed_sequence_sorted_permutation [of "[''sort'', ''5,3,1,2,4'']" Errno_unchanged
      "\<lambda>_. 0" "[5, 3, 1, 2, 4]" 5 "[''sort'', ''3, 1, 2'']"]
  note q1 = t [THEN conjunct1, THEN mp, OF conjI [OF a b]]
  note q2 = t [THEN conjunct2, THEN mp, OF c]
  show ?thesis by (rule conjI a b c q1 q2)+
qed


text \<open>
  C7. An input with a token whose number lies outside \<^verbatim>\<open>long\<close> fails to parse: on
  every C library \<^verbatim>\<open>strtol\<close> reports it with \<^verbatim>\<open>ERANGE\<close>, \<^verbatim>\<open>parse_list\<close> gives up
  with a NULL array and the count 0, and \<^verbatim>\<open>main\<close> takes the usage path.
\<close>

theorem overflow_fails:
  "t \<in> set (tokens s) \<and> subject_value t = Some v \<and> (v < LONG_MIN \<or> LONG_MAX < v) \<and>
   2 \<le> length argv \<and> argv ! 1 = s \<longrightarrow>
     snd (strtol lib t) = ERANGE \<and>
     parse_list lib junk s = Inr (None, 0) \<and>
     main_c lib junk argv =
       Some (Inr \<lparr>exit_code = 1, stdout = [], stderr = usage_text @ [CHR 0x0A]\<rparr>)"
proof (intro impI)
  assume a: "t \<in> set (tokens s) \<and> subject_value t = Some v \<and> (v < LONG_MIN \<or> LONG_MAX < v) \<and>
    2 \<le> length argv \<and> argv ! 1 = s"
  then have e: "snd (strtol lib t) = ERANGE"
    by (auto simp: strtol_def LONG_MIN_def LONG_MAX_def)
  then have "snd (strtol lib t) \<noteq> 0" by (simp add: ERANGE_def)
  with a have p: "parse_list lib junk s = Inr (None, 0)"
    by (intro strtol_error_parse_fails [of t]) simp_all
  with a have "parse_list lib junk (argv ! 1) = Inr (None, 0)" by simp
  then have "main_c lib junk argv =
       Some (Inr \<lparr>exit_code = 1, stdout = [], stderr = usage_text @ [CHR 0x0A]\<rparr>)"
    by (intro main_c_usage) simp
  with e p show "snd (strtol lib t) = ERANGE \<and>
     parse_list lib junk s = Inr (None, 0) \<and>
     main_c lib junk argv =
       Some (Inr \<lparr>exit_code = 1, stdout = [], stderr = usage_text @ [CHR 0x0A]\<rparr>)"
    by simp
qed

theorem overflow_fails_witness:
  "''9223372036854775808'' \<in> set (tokens ''7,9223372036854775808'') \<and>
   subject_value ''9223372036854775808'' = Some 9223372036854775808 \<and>
   LONG_MAX < 9223372036854775808 \<and>
   snd (strtol Errno_unchanged ''9223372036854775808'') = ERANGE \<and>
   parse_list Errno_unchanged (\<lambda>_. 0) ''7,9223372036854775808'' = Inr (None, 0) \<and>
   main_c Errno_unchanged (\<lambda>_. 0) [''sort'', ''7,9223372036854775808''] =
     Some (Inr \<lparr>exit_code = 1, stdout = [], stderr = usage_text @ [CHR 0x0A]\<rparr>)"
proof -
  have a: "''9223372036854775808'' \<in> set (tokens ''7,9223372036854775808'')"
    by code_simp
  have b: "subject_value ''9223372036854775808'' = Some 9223372036854775808"
    by (simp add: subject_value_def isspace_def isdigit_def digits_value_def)
  have c: "LONG_MAX < 9223372036854775808" by (simp add: LONG_MAX_def)
  have d: "2 \<le> length [''sort'', ''7,9223372036854775808''] \<and>
           [''sort'', ''7,9223372036854775808''] ! 1 = ''7,9223372036854775808''"
    by simp
  from a b c d have
    "''9223372036854775808'' \<in> set (tokens ''7,9223372036854775808'') \<and>
     subject_value ''9223372036854775808'' = Some 9223372036854775808 \<and>
     (9223372036854775808 < LONG_MIN \<or> LONG_MAX < 9223372036854775808) \<and>
     2 \<le> length [''sort'', ''7,9223372036854775808''] \<and>
     [''sort'', ''7,9223372036854775808''] ! 1 = ''7,9223372036854775808''"
    by (intro conjI disjI2) simp_all
  note q = overflow_fails [of "''9223372036854775808''" "''7,9223372036854775808''" 9223372036854775808
      "[''sort'', ''7,9223372036854775808'']" Errno_unchanged "\<lambda>_. 0", THEN mp, OF this]
  show ?thesis by (rule conjI a b c q)+
qed


text \<open>
  C2 does not hold on a C library whose \<^verbatim>\<open>strtol\<close> leaves \<^verbatim>\<open>errno\<close> alone when it
  converts nothing (ISO C, glibc). For the argument \<^verbatim>\<open>a,b\<close> each token is read as 0
  with no error, the test of \<^verbatim>\<open>errno\<close> after \<^verbatim>\<open>strtol\<close> passes, \<^verbatim>\<open>parse_list\<close> returns
  the count 2, and the program prints \<^verbatim>\<open>0, 0\<close> and exits with code 0 instead of taking
  the usage path.
\<close>

theorem non_numeric_token_accepted:
  "subject_value ''a'' = None \<and>
   strtol Errno_unchanged ''a'' = (0, 0) \<and>
   tokens ''a,b'' = [''a'', ''b''] \<and>
   parse_list Errno_unchanged junk ''a,b'' = Inr (Some [0, 0], 2) \<and>
   main_c Errno_unchanged junk [prog, ''a,b''] =
     Some (Inr \<lparr>exit_code = 0, stdout = ''0, 0'' @ [CHR 0x0A], stderr = []\<rparr>)"
proof (intro conjI)
  show "subject_value ''a'' = None"
    by (simp add: subject_value_def isspace_def isdigit_def)
  then show "strtol Errno_unchanged ''a'' = (0, 0)"
    by (simp add: strtol_def noconv_errno_def)
  show "tokens ''a,b'' = [''a'', ''b'']" by code_simp
  show "parse_list Errno_unchanged junk ''a,b'' = Inr (Some [0, 0], 2)" by code_simp
  show "main_c Errno_unchanged junk [prog, ''a,b''] =
     Some (Inr \<lparr>exit_code = 0, stdout = ''0, 0'' @ [CHR 0x0A], stderr = []\<rparr>)"
    by code_simp
qed

text \<open>
  C3, as amended. Every run of the C program ends in one of two ways: with no argument,
  or when \<^verbatim>\<open>parse_list\<close> returns 0, it writes the usage message to standard error,
  nothing to standard output, and exits with code 1; otherwise it writes the sorted list
  to standard output, nothing to standard error, and exits with code 0. Every run of the
  C++ program exits with code 0 and writes nothing to standard error: with fewer than
  two numbers collected it writes the usage message to standard output, otherwise the
  sorted list.
\<close>

theorem exit_codes_and_streams:
  "(length argv < 2 \<or> parse_list lib junk (argv ! 1) = Inr (None, 0) \<longrightarrow>
      main_c lib junk argv =
        Some (Inr \<lparr>exit_code = 1, stdout = [], stderr = usage_text @ [CHR 0x0A]\<rparr>)) \<and>
   (2 \<le> length argv \<and> parse_list lib junk (argv ! 1) \<noteq> Inr (None, 0) \<longrightarrow>
      (\<exists>ys :: long list. main_c lib junk argv =
               Some (Inr \<lparr>exit_code = 0, stdout = printed ys, stderr = []\<rparr>) \<and>
            sorted (map sint ys))) \<and>
   (length (numbers argv') < 2 \<longrightarrow>
      main_cpp argv' = Inr \<lparr>exit_code = 0, stdout = usage_text @ [CHR 0x0A], stderr = []\<rparr>) \<and>
   (2 \<le> length (numbers argv') \<longrightarrow>
      (\<exists>ys :: cint list. main_cpp argv' = Inr \<lparr>exit_code = 0, stdout = printed ys, stderr = []\<rparr> \<and>
            sorted (map sint ys)))"
proof (intro conjI impI)
  assume "length argv < 2 \<or> parse_list lib junk (argv ! 1) = Inr (None, 0)"
  then show "main_c lib junk argv =
        Some (Inr \<lparr>exit_code = 1, stdout = [], stderr = usage_text @ [CHR 0x0A]\<rparr>)"
    by (rule main_c_usage)
next
  assume a: "2 \<le> length argv \<and> parse_list lib junk (argv ! 1) \<noteq> Inr (None, 0)"
  then have argc: "2 \<le> length argv" by simp
  from a parse_list_cases [of lib junk "argv ! 1"] obtain arr where
    p: "parse_list lib junk (argv ! 1) = Inr (Some arr, length arr)"
    by auto
  from main_c_sorts [OF argc p] obtain ys :: "long list" where
    "main_c lib junk argv = Some (Inr \<lparr>exit_code = 0, stdout = printed ys, stderr = []\<rparr>)"
    and "sorted (map sint ys)"
    by auto
  then show "\<exists>ys :: long list. main_c lib junk argv =
               Some (Inr \<lparr>exit_code = 0, stdout = printed ys, stderr = []\<rparr>) \<and>
            sorted (map sint ys)"
    by auto
next
  assume "length (numbers argv') < 2"
  then show "main_cpp argv' =
      Inr \<lparr>exit_code = 0, stdout = usage_text @ [CHR 0x0A], stderr = []\<rparr>"
    by (rule main_cpp_usage)
next
  assume "2 \<le> length (numbers argv')"
  from main_cpp_sorts [OF this] obtain ys :: "cint list" where
    "main_cpp argv' = Inr \<lparr>exit_code = 0, stdout = printed ys, stderr = []\<rparr>"
    and "sorted (map sint ys)"
    by auto
  then show "\<exists>ys :: cint list. main_cpp argv' = Inr \<lparr>exit_code = 0, stdout = printed ys, stderr = []\<rparr> \<and>
            sorted (map sint ys)"
    by auto
qed

theorem exit_codes_and_streams_witness:
  "parse_list Errno_unchanged (\<lambda>_. 0) ([''sort'', ''x''] ! 1) = Inr (None, 0) \<and>
   main_c Errno_unchanged (\<lambda>_. 0) [''sort'', ''x''] =
     Some (Inr \<lparr>exit_code = 1, stdout = [], stderr = usage_text @ [CHR 0x0A]\<rparr>) \<and>
   2 \<le> length [''sort'', ''2,1''] \<and>
   parse_list Errno_unchanged (\<lambda>_. 0) ([''sort'', ''2,1''] ! 1) \<noteq> Inr (None, 0) \<and>
   (\<exists>ys :: long list. main_c Errno_unchanged (\<lambda>_. 0) [''sort'', ''2,1''] =
            Some (Inr \<lparr>exit_code = 0, stdout = printed ys, stderr = []\<rparr>) \<and>
          sorted (map sint ys)) \<and>
   length (numbers [''sort'', ''7'']) < 2 \<and>
   main_cpp [''sort'', ''7''] =
     Inr \<lparr>exit_code = 0, stdout = usage_text @ [CHR 0x0A], stderr = []\<rparr> \<and>
   2 \<le> length (numbers [''sort'', ''2, 1'']) \<and>
   (\<exists>ys :: cint list. main_cpp [''sort'', ''2, 1''] =
            Inr \<lparr>exit_code = 0, stdout = printed ys, stderr = []\<rparr> \<and>
          sorted (map sint ys))"
proof -
  have a: "parse_list Errno_unchanged (\<lambda>_. 0) ([''sort'', ''x''] ! 1) = Inr (None, 0)"
    by code_simp
  have b: "2 \<le> length [''sort'', ''2,1'']" by simp
  have c: "parse_list Errno_unchanged (\<lambda>_. 0) ([''sort'', ''2,1''] ! 1) \<noteq> Inr (None, 0)"
    by code_simp
  have d: "length (numbers [''sort'', ''7'']) < 2" by code_simp
  have e: "2 \<le> length (numbers [''sort'', ''2, 1''])" by code_simp
  note t1 = exit_codes_and_streams [of "[''sort'', ''x'']" Errno_unchanged "\<lambda>_. 0" "[''sort'', ''7'']"]
  note t2 = exit_codes_and_streams [of "[''sort'', ''2,1'']" Errno_unchanged "\<lambda>_. 0" "[''sort'', ''2, 1'']"]
  note q1 = t1 [THEN conjunct1, THEN mp, OF disjI2 [OF a]]
  note q2 = t2 [THEN conjunct2, THEN conjunct1, THEN mp, OF conjI [OF b c]]
  note q3 = t1 [THEN conjunct2, THEN conjunct2, THEN conjunct1, THEN mp, OF d]
  note q4 = t2 [THEN conjunct2, THEN conjunct2, THEN conjunct2, THEN mp, OF e]
  show ?thesis by (rule conjI a b c d e q1 q2 q3 q4)+
qed

text \<open>
  C3 as stated fails on the C++ program: run without an argument it returns exit code 0,
  not 1, and its usage message is on standard output, not on standard error.
\<close>

theorem exit_codes_and_streams_counterexample:
  "main_cpp [''sort''] =
     Inr \<lparr>exit_code = 0, stdout = usage_text @ [CHR 0x0A], stderr = []\<rparr>"
  by code_simp

text \<open>
  C4, as amended. Run with no argument, the C program writes the usage message to
  standard error, writes nothing to standard output and exits with code 1, whatever the
  library and the memory hold: nothing is parsed, sorted or printed. Arguments after the
  first are ignored: a run with more arguments is the run with the first alone. Run with
  an argument count other than one, the C++ program leaves \<^verbatim>\<open>numbers\<close> empty and writes
  only the usage message, to standard output, with exit code 0.
\<close>

theorem wrong_argument_count:
  "(length argv < 2 \<longrightarrow>
      main_c lib junk argv =
        Some (Inr \<lparr>exit_code = 1, stdout = [], stderr = usage_text @ [CHR 0x0A]\<rparr>)) \<and>
   main_c lib junk (prog # arg # rest) = main_c lib junk [prog, arg] \<and>
   (length argv' \<noteq> 2 \<longrightarrow>
      numbers argv' = [] \<and>
      main_cpp argv' = Inr \<lparr>exit_code = 0, stdout = usage_text @ [CHR 0x0A], stderr = []\<rparr>)"
proof (intro conjI impI)
  assume "length argv < 2"
  then show "main_c lib junk argv =
        Some (Inr \<lparr>exit_code = 1, stdout = [], stderr = usage_text @ [CHR 0x0A]\<rparr>)"
    by (intro main_c_usage) simp
next
  show "main_c lib junk (prog # arg # rest) = main_c lib junk [prog, arg]"
    by (simp add: main_c_def)
next
  assume a: "length argv' \<noteq> 2"
  then show n: "numbers argv' = []" by (rule numbers_argc)
  then show "main_cpp argv' =
      Inr \<lparr>exit_code = 0, stdout = usage_text @ [CHR 0x0A], stderr = []\<rparr>"
    by (intro main_cpp_usage) simp
qed

theorem wrong_argument_count_witness:
  "length [''sort''] < 2 \<and>
   main_c Errno_unchanged (\<lambda>_. 0) [''sort''] =
     Some (Inr \<lparr>exit_code = 1, stdout = [], stderr = usage_text @ [CHR 0x0A]\<rparr>) \<and>
   main_c Errno_unchanged (\<lambda>_. 0) [''sort'', ''2,1'', ''4,3'', ''x''] =
     main_c Errno_unchanged (\<lambda>_. 0) [''sort'', ''2,1''] \<and>
   length [''sort'', ''2, 1'', ''4, 3''] \<noteq> 2 \<and>
   numbers [''sort'', ''2, 1'', ''4, 3''] = [] \<and>
   main_cpp [''sort'', ''2, 1'', ''4, 3''] =
     Inr \<lparr>exit_code = 0, stdout = usage_text @ [CHR 0x0A], stderr = []\<rparr>"
proof -
  have a: "length [''sort''] < 2" by simp
  have b: "length [''sort'', ''2, 1'', ''4, 3''] \<noteq> 2" by simp
  note t = wrong_argument_count [of "[''sort'']" Errno_unchanged "\<lambda>_. 0" "''sort''" "''2,1''"
      "[''4,3'', ''x'']" "[''sort'', ''2, 1'', ''4, 3'']"]
  note q1 = t [THEN conjunct1, THEN mp, OF a]
  note q2 = t [THEN conjunct2, THEN conjunct1]
  note q3 = t [THEN conjunct2, THEN conjunct2, THEN mp, OF b]
  show ?thesis by (rule conjI a b q1 q2 q3 [THEN conjunct1] q3 [THEN conjunct2])+
qed

text \<open>
  C4 as stated fails. The C program only asks for at least one argument: with two it
  parses, sorts and prints the first and exits with code 0. The C++ program, given two
  arguments, takes its usage path but returns exit code 0, not 1.
\<close>

theorem wrong_argument_count_counterexample:
  "main_c Errno_unchanged (\<lambda>_. 0) [''sort'', ''2,1'', ''4,3''] =
     Some (Inr \<lparr>exit_code = 0, stdout = ''1, 2'' @ [CHR 0x0A], stderr = []\<rparr>) \<and>
   exit_code (projr (main_cpp [''sort'', ''2, 1'', ''4, 3''])) = 0"
  by (intro conjI; code_simp)


text \<open>
  C5, as amended. The C parser splits at bare commas, and white space before a number is
  skipped by \<^verbatim>\<open>strtol\<close>, so a comma may or may not be followed by white space: for the
  argument \<^verbatim>\<open>5,3,1,2,4\<close>, and for \<^verbatim>\<open>5, 3, 1, 2, 4\<close> as well, the C program prints the
  line \<^verbatim>\<open>1, 2, 3, 4, 5\<close> and exits with code 0, on every C library and whatever the
  fresh memory holds. The C++ program prints that line for \<^verbatim>\<open>5, 3, 1, 2, 4\<close>, where
  every comma is followed by one space.
\<close>

theorem bare_comma_delimiter:
  "main_c lib junk [prog, ''5,3,1,2,4''] =
     Some (Inr \<lparr>exit_code = 0, stdout = ''1, 2, 3, 4, 5'' @ [CHR 0x0A], stderr = []\<rparr>) \<and>
   main_c lib junk [prog, ''5, 3, 1, 2, 4''] =
     Some (Inr \<lparr>exit_code = 0, stdout = ''1, 2, 3, 4, 5'' @ [CHR 0x0A], stderr = []\<rparr>) \<and>
   tokens ''5,3,1,2,4'' = [''5'', ''3'', ''1'', ''2'', ''4''] \<and>
   ((\<forall>c \<in> set ws. isspace c) \<longrightarrow> strtol lib (ws @ token) = strtol lib token) \<and>
   main_cpp [prog, ''5, 3, 1, 2, 4''] =
     Inr \<lparr>exit_code = 0, stdout = ''1, 2, 3, 4, 5'' @ [CHR 0x0A], stderr = []\<rparr>"
proof (intro conjI impI)
  show "main_c lib junk [prog, ''5,3,1,2,4''] =
     Some (Inr \<lparr>exit_code = 0, stdout = ''1, 2, 3, 4, 5'' @ [CHR 0x0A], stderr = []\<rparr>)"
    by code_simp
  show "main_c lib junk [prog, ''5, 3, 1, 2, 4''] =
     Some (Inr \<lparr>exit_code = 0, stdout = ''1, 2, 3, 4, 5'' @ [CHR 0x0A], stderr = []\<rparr>)"
    by code_simp
  show "tokens ''5,3,1,2,4'' = [''5'', ''3'', ''1'', ''2'', ''4'']"
    by code_simp
  show "main_cpp [prog, ''5, 3, 1, 2, 4''] =
     Inr \<lparr>exit_code = 0, stdout = ''1, 2, 3, 4, 5'' @ [CHR 0x0A], stderr = []\<rparr>"
    by code_simp
next
  assume "\<forall>c \<in> set ws. isspace c"
  then show "strtol lib (ws @ token) = strtol lib token" by (rule strtol_skips_space)
qed

theorem bare_comma_delimiter_witness:
  "isspace (CHR '' '') \<and>
   strtol Errno_unchanged ('' '' @ ''3'') = strtol Errno_unchanged ''3'' \<and>
   strtol Errno_unchanged ''3'' = (3, 0)"
proof -
  have i: "isspace (CHR '' '')" by (simp add: isspace_def)
  then have a: "\<forall>c \<in> set '' ''. isspace c" by simp
  note q = bare_comma_delimiter [of Errno_unchanged "\<lambda>_. 0" "''sort''" "'' ''" "''3''",
      THEN conjunct2, THEN conjunct2, THEN conjunct2, THEN conjunct1, THEN mp, OF a]
  have b: "strtol Errno_unchanged ''3'' = (3, 0)"
    by (simp add: strtol_def subject_value_def isspace_def isdigit_def digits_value_def
        LONG_MAX_def LONG_MIN_def)
  show ?thesis by (rule conjI i q b)+
qed

text \<open>
  C5 as stated fails on the C++ program: its format check wants a space after every
  comma, so for the argument \<^verbatim>\<open>5,3,1,2,4\<close> it prints the usage message instead of the
  sorted line.
\<close>

theorem bare_comma_delimiter_counterexample:
  "format_loop ''5,3,1,2,4'' 1 False = False \<and>
   main_cpp [''sort'', ''5,3,1,2,4''] =
     Inr \<lparr>exit_code = 0, stdout = usage_text @ [CHR 0x0A], stderr = []\<rparr>"
  by (intro conjI; code_simp)

text \<open>
  C6 holds for an argument without a comma, such as \<^verbatim>\<open>3\<close>: the parse fails and the
  program takes the usage path. It does not hold for an argument with a comma and a
  single token: for \<^verbatim>\<open>3,\<close> the parser counts one comma, allocates two cells, fills
  one, and returns the count 2 with the second cell never written; the program sorts and
  prints that cell (here holding 0) with the 3.
\<close>

theorem single_token_with_comma:
  "parse_list lib junk ''3'' = Inr (None, 0) \<and>
   main_c lib junk [prog, ''3''] =
     Some (Inr \<lparr>exit_code = 1, stdout = [], stderr = usage_text @ [CHR 0x0A]\<rparr>) \<and>
   tokens ''3,'' = [''3''] \<and>
   parse_list lib junk ''3,'' = Inr (Some [3, junk 1], 2) \<and>
   main_c lib (\<lambda>_. 0) [prog, ''3,''] =
     Some (Inr \<lparr>exit_code = 0, stdout = ''0, 3'' @ [CHR 0x0A], stderr = []\<rparr>)"
  by (intro conjI; code_simp)

text \<open>
  C10. The format check of the C++ program accepts an argument only if a comma stands at
  every third position from index 1 on, each followed by a space; an argument it does not
  accept takes the usage path. So the well-formed list \<^verbatim>\<open>10, 20\<close>, whose first number
  has two digits, takes the usage path, while the C program sorts and prints it.
\<close>

theorem cpp_format_check:
  "(format_loop s 1 False = True \<longrightarrow>
      (\<forall>k. 1 + 3 * k < length s \<longrightarrow>
           s ! (1 + 3 * k) = CHR '','' \<and> 1 + 3 * k + 1 < length s \<and> s ! (1 + 3 * k + 1) = CHR '' '')) \<and>
   (format_loop s 1 False \<noteq> True \<longrightarrow>
      main_cpp [prog, s] = Inr \<lparr>exit_code = 0, stdout = usage_text @ [CHR 0x0A], stderr = []\<rparr>) \<and>
   main_cpp [prog, ''10, 20''] =
     Inr \<lparr>exit_code = 0, stdout = usage_text @ [CHR 0x0A], stderr = []\<rparr> \<and>
   main_c lib junk [prog, ''10, 20''] =
     Some (Inr \<lparr>exit_code = 0, stdout = ''10, 20'' @ [CHR 0x0A], stderr = []\<rparr>)"
proof -
  have p1: "format_loop s 1 False = True \<longrightarrow>
      (\<forall>k. 1 + 3 * k < length s \<longrightarrow>
           s ! (1 + 3 * k) = CHR '','' \<and> 1 + 3 * k + 1 < length s \<and> s ! (1 + 3 * k + 1) = CHR '' '')"
    using format_loop_separators [of s 1 False] by blast
  have p2: "format_loop s 1 False \<noteq> True \<longrightarrow>
      main_cpp [prog, s] = Inr \<lparr>exit_code = 0, stdout = usage_text @ [CHR 0x0A], stderr = []\<rparr>"
  proof
    assume "format_loop s 1 False \<noteq> True"
    then have "numbers [prog, s] = []" by (simp add: numbers_def)
    then show "main_cpp [prog, s] =
        Inr \<lparr>exit_code = 0, stdout = usage_text @ [CHR 0x0A], stderr = []\<rparr>"
      by (intro main_cpp_usage) simp
  qed
  have p3: "main_cpp [prog, ''10, 20''] =
     Inr \<lparr>exit_code = 0, stdout = usage_text @ [CHR 0x0A], stderr = []\<rparr>"
    by code_simp
  have p4: "main_c lib junk [prog, ''10, 20''] =
     Some (Inr \<lparr>exit_code = 0, stdout = ''10, 20'' @ [CHR 0x0A], stderr = []\<rparr>)"
    by code_simp
  show ?thesis by (rule conjI p1 p2 p3 p4)+
qed

theorem cpp_format_check_witness:
  "format_loop ''4, 2, 9'' 1 False = True \<and>
   1 + 3 * 1 < length ''4, 2, 9'' \<and>
   ''4, 2, 9'' ! (1 + 3 * 1) = CHR '','' \<and> 1 + 3 * 1 + 1 < length ''4, 2, 9'' \<and>
   ''4, 2, 9'' ! (1 + 3 * 1 + 1) = CHR '' '' \<and>
   format_loop ''10, 20'' 1 False \<noteq> True \<and>
   main_cpp [''sort'', ''10, 20''] =
     Inr \<lparr>exit_code = 0, stdout = usage_text @ [CHR 0x0A], stderr = []\<rparr>"
proof -
  have a: "format_loop ''4, 2, 9'' 1 False = True" by code_simp
  have b: "format_loop ''10, 20'' 1 False \<noteq> True" by code_simp
  have c: "1 + 3 * 1 < length ''4, 2, 9''" by simp
  note q1 = cpp_format_check [of "''4, 2, 9''" "''sort''" Errno_unchanged "\<lambda>_. 0",
      THEN conjunct1, THEN mp, OF a, THEN spec, of 1, THEN mp, OF c]
  note q2 = cpp_format_check [of "''10, 20''" "''sort''" Errno_unchanged "\<lambda>_. 0",
      THEN conjunct2, THEN conjunct1, THEN mp, OF b]
  show ?thesis
    by (rule conjI a b c q1 [THEN conjunct1] q1 [THEN conjunct2, THEN conjunct1]
        q1 [THEN conjunct2, THEN conjunct2] q2)+
qed


end
